theory Spec2Isabelle
  imports Main "HOL-Library.Char_ord" "HOL-Library.List_Lexorder"
begin

section \<open>Data model of migrate.go\<close>

text \<open>
  Go strings are byte sequences and \<^verbatim>\<open><\<close>, \<^verbatim>\<open><=\<close> on them compare bytewise; this
  is the lexicographic order on \<^typ>\<open>string\<close> over the order of \<^typ>\<open>char\<close> by code.

  \<^verbatim>\<open>type MigrationDirection int\<close> with \<^verbatim>\<open>Up = iota\<close>, \<^verbatim>\<open>Down\<close>: the type is an
  integer type, so a caller can pass values other than the two constants; the branches
  \<^verbatim>\<open>panic("Not possible")\<close> of the source are the ones such a value reaches.

  Go's \<^verbatim>\<open>int\<close> has 64 bits. The indices and counts of this file stay between \<open>-1\<close> and
  the length of a slice, so none can wrap, and they are integers here.
\<close>

type_synonym MigrationDirection = int

definition Up :: MigrationDirection where
  "Up = 0"

definition Down :: MigrationDirection where
  "Down = 1"

text \<open>
  \<^verbatim>\<open>type Migration struct { Id string; Up []string; Down []string }\<close>.
  The field names carry a prefix, since \<open>Up\<close> and \<open>Down\<close> are the directions.
  A slice \<^verbatim>\<open>[]*Migration\<close> whose pointers are all non-nil, as the ones every source of
  this file appends are, is a list of such records; a slice that may hold nil is a list of
  \<open>Migration option\<close>, and \<open>ToApply\<close> on it is \<open>ToApply_ptr\<close> below.
\<close>

record Migration =
  m_Id :: string
  m_Up :: "string list"
  m_Down :: "string list"

text \<open>\<^verbatim>\<open>type PlannedMigration struct { *Migration; Queries []string }\<close>\<close>

record PlannedMigration =
  p_Migration :: Migration
  p_Queries :: "string list"

text \<open>
  \<^verbatim>\<open>type MigrationRecord struct { Id string; AppliedAt time.Time }\<close>; a time is a
  clock reading, a natural number.
\<close>

record MigrationRecord =
  r_Id :: string
  r_AppliedAt :: nat

text \<open>What a Go panic carries, as far as this file can raise one.\<close>

datatype panic = NotPossible | IndexOutOfRange | NilPointer

datatype 'a outcome = Returned 'a | Panicked panic

section \<open>ToApply\<close>

text \<open>
  The scan of \<^verbatim>\<open>ToApply\<close>:
  \<^verbatim>\<open>
  var index = -1
  for index < len(migrations)-1 && migrations[index+1].Id <= current {
      index++
  }
  \<close>
  The read \<^verbatim>\<open>migrations[index+1]\<close> is checked against the bounds of the slice, as the Go
  runtime does; \<^verbatim>\<open>&&\<close> evaluates it only when the first conjunct holds.
\<close>

function ToApply_scan :: "Migration list \<Rightarrow> string \<Rightarrow> int \<Rightarrow> int outcome" where
  "ToApply_scan migrations current index =
     (if index < int (length migrations) - 1 then
        (if 0 \<le> index + 1 \<and> index + 1 < int (length migrations) then
           (if m_Id (migrations ! nat (index + 1)) \<le> current
            then ToApply_scan migrations current (index + 1)
            else Returned index)
         else Panicked IndexOutOfRange)
      else Returned index)"
  by pat_completeness auto
termination
  by (relation "measure (\<lambda>(migrations, current, index). nat (int (length migrations) - 1 - index))")
     auto

declare ToApply_scan.simps [simp del]

text \<open>
  The reverse copy of the \<^verbatim>\<open>Down\<close> branch:
  \<^verbatim>\<open>
  toApply := make([]*Migration, index+1)
  for i := 0; i < index+1; i++ {
      toApply[index-i] = migrations[i]
  }
  \<close>
  \<^verbatim>\<open>make\<close> yields nil pointers, \<open>None\<close> here; both the read and the write are bounds-checked.
\<close>

function ToApply_fill ::
  "Migration list \<Rightarrow> int \<Rightarrow> int \<Rightarrow> Migration option list \<Rightarrow> Migration option list outcome" where
  "ToApply_fill migrations index i toApply =
     (if i < index + 1 then
        (if 0 \<le> i \<and> i < int (length migrations) \<and>
            0 \<le> index - i \<and> index - i < int (length toApply) then
           ToApply_fill migrations index (i + 1)
             (toApply[nat (index - i) := Some (migrations ! nat i)])
         else Panicked IndexOutOfRange)
      else Returned toApply)"
  by pat_completeness auto
termination
  by (relation "measure (\<lambda>(migrations, index, i, toApply). nat (index + 1 - i))") auto

declare ToApply_fill.simps [simp del]

text \<open>
  A slice of pointers handed back as a list of migrations: a slot that is still nil is no
  migration, and the first use of it (\<^verbatim>\<open>v.Up\<close> in \<^verbatim>\<open>PlanMigration\<close>) would panic.
\<close>

definition non_nil :: "Migration option list \<Rightarrow> Migration list outcome" where
  "non_nil toApply =
     (case those toApply of None \<Rightarrow> Panicked NilPointer | Some ms \<Rightarrow> Returned ms)"

text \<open>
  \<^verbatim>\<open>func ToApply(migrations []*Migration, current string, direction MigrationDirection)\<close>.
  \<^verbatim>\<open>migrations[index+1:]\<close> panics unless \<open>0 \<le> index+1 \<le> len\<close>; \<^verbatim>\<open>make\<close> panics on a
  negative length.
\<close>

definition ToApply ::
  "Migration list \<Rightarrow> string \<Rightarrow> MigrationDirection \<Rightarrow> Migration list outcome" where
  "ToApply migrations current direction =
     (case ToApply_scan migrations current (- 1) of
        Panicked p \<Rightarrow> Panicked p
      | Returned index \<Rightarrow>
          if direction = Up then
            (if 0 \<le> index + 1 \<and> index + 1 \<le> int (length migrations)
             then Returned (drop (nat (index + 1)) migrations)
             else Panicked IndexOutOfRange)
          else if direction = Down then
            (if index = - 1 then Returned []
             else if index + 1 < 0 then Panicked IndexOutOfRange
             else
               (case ToApply_fill migrations index 0 (replicate (nat (index + 1)) None) of
                  Panicked p \<Rightarrow> Panicked p
                | Returned toApply \<Rightarrow> non_nil toApply))
          else Panicked NotPossible)"


subsection \<open>ToApply on slices that may hold nil\<close>

text \<open>
  The element type of \<^verbatim>\<open>[]*Migration\<close> is a pointer, and the exported \<^verbatim>\<open>ToApply\<close> can
  be handed a slice with nil entries (\<^verbatim>\<open>MemoryMigrationSource\<close> passes on whatever list it
  was given). The functions of this subsection are \<^verbatim>\<open>ToApply\<close> on such slices: an entry
  is \<open>None\<close> for nil, and the field read \<^verbatim>\<open>migrations[index+1].Id\<close> of the scan panics on
  it. The copy of the \<open>Down\<close> branch and the slice of the \<open>Up\<close> branch move pointers and
  read no field. On a slice without nil these functions are the ones above (lemma
  \<open>ToApply_ptr_map_Some\<close>).
\<close>

function ToApply_scan_ptr :: "Migration option list \<Rightarrow> string \<Rightarrow> int \<Rightarrow> int outcome" where
  "ToApply_scan_ptr migrations current index =
     (if index < int (length migrations) - 1 then
        (if 0 \<le> index + 1 \<and> index + 1 < int (length migrations) then
           (case migrations ! nat (index + 1) of
              None \<Rightarrow> Panicked NilPointer
            | Some m \<Rightarrow>
                if m_Id m \<le> current
                then ToApply_scan_ptr migrations current (index + 1)
                else Returned index)
         else Panicked IndexOutOfRange)
      else Returned index)"
  by pat_completeness auto
termination
  by (relation "measure (\<lambda>(migrations, current, index). nat (int (length migrations) - 1 - index))")
     auto

declare ToApply_scan_ptr.simps [simp del]

function ToApply_fill_ptr ::
  "Migration option list \<Rightarrow> int \<Rightarrow> int \<Rightarrow> Migration option list
     \<Rightarrow> Migration option list outcome" where
  "ToApply_fill_ptr migrations index i toApply =
     (if i < index + 1 then
        (if 0 \<le> i \<and> i < int (length migrations) \<and>
            0 \<le> index - i \<and> index - i < int (length toApply) then
           ToApply_fill_ptr migrations index (i + 1)
             (toApply[nat (index - i) := migrations ! nat i])
         else Panicked IndexOutOfRange)
      else Returned toApply)"
  by pat_completeness auto
termination
  by (relation "measure (\<lambda>(migrations, index, i, toApply). nat (index + 1 - i))") auto

declare ToApply_fill_ptr.simps [simp del]

definition ToApply_ptr ::
  "Migration option list \<Rightarrow> string \<Rightarrow> MigrationDirection \<Rightarrow> Migration option list outcome" where
  "ToApply_ptr migrations current direction =
     (case ToApply_scan_ptr migrations current (- 1) of
        Panicked p \<Rightarrow> Panicked p
      | Returned index \<Rightarrow>
          if direction = Up then
            (if 0 \<le> index + 1 \<and> index + 1 \<le> int (length migrations)
             then Returned (drop (nat (index + 1)) migrations)
             else Panicked IndexOutOfRange)
          else if direction = Down then
            (if index = - 1 then Returned []
             else if index + 1 < 0 then Panicked IndexOutOfRange
             else ToApply_fill_ptr migrations index 0 (replicate (nat (index + 1)) None))
          else Panicked NotPossible)"


section \<open>The database behind gorp and database/sql\<close>

text \<open>
  \<^verbatim>\<open>var MigrationDialects = map[string]gorp.Dialect{...}\<close>, with its five entries.
\<close>

datatype Dialect =
    SqliteDialect
  | PostgresDialect
  | MySQLDialect string string
  | SqlServerDialect
  | OracleDialect

definition MigrationDialects :: "string \<Rightarrow> Dialect option" where
  "MigrationDialects =
     map_of [(''sqlite3'', SqliteDialect),
             (''postgres'', PostgresDialect),
             (''mysql'', MySQLDialect ''InnoDB'' ''UTF8''),
             (''mssql'', SqlServerDialect),
             (''oci8'', OracleDialect)]"

text \<open>
  The values of Go's \<^verbatim>\<open>error\<close> that reach this file: the one it makes itself
  (\<^verbatim>\<open>fmt.Errorf("Unknown dialect: %s", dialect)\<close>), \<^verbatim>\<open>sql.ErrNoRows\<close>, and whatever the
  driver or the migration source reports.
\<close>

datatype error =
    UnknownDialect string
  | ErrNoRows
  | DriverError string
  | SourceError string

text \<open>
  \<^verbatim>\<open>gorp.DbMap{Db: db, Dialect: d}\<close> after
  \<^verbatim>\<open>AddTableWithName(MigrationRecord{}, "gorp_migrations").SetKeys(false, "Id")\<close>.
  The handle \<^verbatim>\<open>db\<close> is the world the calls below act on.
\<close>

record DbMap =
  dm_Dialect :: Dialect
  dm_Table :: string
  dm_Keys :: "string list"

text \<open>
  The calls this file makes on the database and on the migration source, in the order they
  are made: the trace of a run.
\<close>

datatype event =
    EvCreateTables
  | EvFindMigrations
  | EvSelectOne
  | EvBegin
  | EvExec string
  | EvInsert string
  | EvDelete string
  | EvCommit
  | EvRollback

text \<open>
  gorp and database/sql are not part of this repository; what they do is a parameter:
  \<^item> \<open>run_stmt\<close>: the effect of one SQL statement of a migration on the schema and data
    (of any type \<open>'d\<close>), or the message of its failure. Statements of migrations are taken
    to act on the schema, not on the table \<^verbatim>\<open>gorp_migrations\<close>;
  \<^item> \<open>fault\<close>: a failure of a call for reasons of the environment (connection, permissions,
    locks), as a function of the calls made so far and the call attempted;
  \<^item> \<open>now\<close>: the reading of \<^verbatim>\<open>time.Now()\<close>, as a function of the calls made so far.
\<close>

record 'd driver =
  run_stmt :: "string \<Rightarrow> 'd \<Rightarrow> string + 'd"
  fault :: "event list \<Rightarrow> event \<Rightarrow> string option"
  now :: "event list \<Rightarrow> nat"

text \<open>
  The world: the committed schema, the committed rows of \<^verbatim>\<open>gorp_migrations\<close> (an absent
  table and an empty one are not told apart), the number of transactions begun and neither
  committed nor rolled back, and the trace.
\<close>

record 'd world =
  schema :: 'd
  ledger :: "MigrationRecord list"
  open_tx :: nat
  log :: "event list"

text \<open>
  A \<^verbatim>\<open>*gorp.Transaction\<close>: the transaction's own view of schema and ledger, which
  starts as the committed state and replaces it at commit.
\<close>

record 'd trans =
  t_schema :: 'd
  t_ledger :: "MigrationRecord list"

definition driver_call :: "'d driver \<Rightarrow> event \<Rightarrow> 'd world \<Rightarrow> error option \<times> 'd world" where
  "driver_call drv ev w =
     (map_option DriverError (fault drv (log w) ev), w\<lparr>log := log w @ [ev]\<rparr>)"

definition DbMap_CreateTablesIfNotExists ::
  "'d driver \<Rightarrow> DbMap \<Rightarrow> 'd world \<Rightarrow> error option \<times> 'd world" where
  "DbMap_CreateTablesIfNotExists drv dbMap w = driver_call drv EvCreateTables w"

text \<open>
  \<^verbatim>\<open>SELECT * FROM gorp_migrations ORDER BY id DESC LIMIT 1\<close>: the row with the greatest id.
  The database is taken to order ids as Go orders strings.
\<close>

fun newest :: "MigrationRecord list \<Rightarrow> MigrationRecord option" where
  "newest [] = None"
| "newest (r # rs) =
     (case newest rs of
        None \<Rightarrow> Some r
      | Some b \<Rightarrow> if r_Id b < r_Id r then Some r else Some b)"

text \<open>
  \<^verbatim>\<open>dbMap.SelectOne(&record, query)\<close>: with no row the holder is left as it was and the
  error is \<^verbatim>\<open>sql.ErrNoRows\<close>.
\<close>

definition DbMap_SelectOne ::
  "'d driver \<Rightarrow> DbMap \<Rightarrow> MigrationRecord \<Rightarrow> 'd world
     \<Rightarrow> (error option \<times> MigrationRecord) \<times> 'd world" where
  "DbMap_SelectOne drv dbMap record w =
     (case driver_call drv EvSelectOne w of
        (Some err, w1) \<Rightarrow> ((Some err, record), w1)
      | (None, w1) \<Rightarrow>
          (case newest (ledger w1) of
             None \<Rightarrow> ((Some ErrNoRows, record), w1)
           | Some r \<Rightarrow> ((None, r), w1)))"

definition DbMap_Begin :: "'d driver \<Rightarrow> DbMap \<Rightarrow> 'd world \<Rightarrow> (error + 'd trans) \<times> 'd world" where
  "DbMap_Begin drv dbMap w =
     (case driver_call drv EvBegin w of
        (Some err, w1) \<Rightarrow> (Inl err, w1)
      | (None, w1) \<Rightarrow>
          (Inr \<lparr>t_schema = schema w1, t_ledger = ledger w1\<rparr>,
           w1\<lparr>open_tx := open_tx w1 + 1\<rparr>))"

definition Tx_Exec ::
  "'d driver \<Rightarrow> 'd trans \<Rightarrow> string \<Rightarrow> 'd world \<Rightarrow> (error + 'd trans) \<times> 'd world" where
  "Tx_Exec drv tx stmt w =
     (case driver_call drv (EvExec stmt) w of
        (Some err, w1) \<Rightarrow> (Inl err, w1)
      | (None, w1) \<Rightarrow>
          (case run_stmt drv stmt (t_schema tx) of
             Inl msg \<Rightarrow> (Inl (DriverError msg), w1)
           | Inr d \<Rightarrow> (Inr (tx\<lparr>t_schema := d\<rparr>), w1)))"

text \<open>\<^verbatim>\<open>Id\<close> is the primary key: inserting a second row with an id fails.\<close>

definition Tx_Insert ::
  "'d driver \<Rightarrow> 'd trans \<Rightarrow> MigrationRecord \<Rightarrow> 'd world \<Rightarrow> (error + 'd trans) \<times> 'd world" where
  "Tx_Insert drv tx r w =
     (case driver_call drv (EvInsert (r_Id r)) w of
        (Some err, w1) \<Rightarrow> (Inl err, w1)
      | (None, w1) \<Rightarrow>
          if r_Id r \<in> set (map r_Id (t_ledger tx))
          then (Inl (DriverError ''duplicate key''), w1)
          else (Inr (tx\<lparr>t_ledger := t_ledger tx @ [r]\<rparr>), w1))"

text \<open>\<^verbatim>\<open>trans.Delete\<close> deletes by primary key and returns the number of rows deleted.\<close>

definition Tx_Delete ::
  "'d driver \<Rightarrow> 'd trans \<Rightarrow> MigrationRecord \<Rightarrow> 'd world
     \<Rightarrow> (error + int \<times> 'd trans) \<times> 'd world" where
  "Tx_Delete drv tx r w =
     (case driver_call drv (EvDelete (r_Id r)) w of
        (Some err, w1) \<Rightarrow> (Inl err, w1)
      | (None, w1) \<Rightarrow>
          (Inr (int (length (filter (\<lambda>x. r_Id x = r_Id r) (t_ledger tx))),
                tx\<lparr>t_ledger := filter (\<lambda>x. r_Id x \<noteq> r_Id r) (t_ledger tx)\<rparr>),
           w1))"

definition Tx_Commit :: "'d driver \<Rightarrow> 'd trans \<Rightarrow> 'd world \<Rightarrow> error option \<times> 'd world" where
  "Tx_Commit drv tx w =
     (case driver_call drv EvCommit w of
        (Some err, w1) \<Rightarrow> (Some err, w1\<lparr>open_tx := open_tx w1 - 1\<rparr>)
      | (None, w1) \<Rightarrow>
          (None, w1\<lparr>schema := t_schema tx, ledger := t_ledger tx,
                    open_tx := open_tx w1 - 1\<rparr>))"

definition Tx_Rollback :: "'d driver \<Rightarrow> 'd trans \<Rightarrow> 'd world \<Rightarrow> error option \<times> 'd world" where
  "Tx_Rollback drv tx w =
     (case driver_call drv EvRollback w of
        (err, w1) \<Rightarrow> (err, w1\<lparr>open_tx := open_tx w1 - 1\<rparr>))"

section \<open>Migration sources\<close>

text \<open>
  \<^verbatim>\<open>m.FindMigrations()\<close> of the interface \<^verbatim>\<open>MigrationSource\<close>: a source is what one call
  of it yields. \<^verbatim>\<open>MemoryMigrationSource\<close> yields its list and never fails.
\<close>

type_synonym MigrationSource = "error + Migration list"

definition MemoryMigrationSource :: "Migration list \<Rightarrow> MigrationSource" where
  "MemoryMigrationSource migrations = Inr migrations"

definition FindMigrations ::
  "MigrationSource \<Rightarrow> 'd world \<Rightarrow> (error + Migration list) \<times> 'd world" where
  "FindMigrations m w = (m, w\<lparr>log := log w @ [EvFindMigrations]\<rparr>)"

section \<open>PlanMigration\<close>

definition getMigrationDbMap :: "string \<Rightarrow> error + DbMap" where
  "getMigrationDbMap dialect =
     (case MigrationDialects dialect of
        None \<Rightarrow> Inl (UnknownDialect dialect)
      | Some d \<Rightarrow> Inr \<lparr>dm_Dialect = d, dm_Table = ''gorp_migrations'', dm_Keys = [''Id'']\<rparr>)"

text \<open>
  The loop that wraps each migration to apply:
  \<^verbatim>\<open>
  for k, v := range toApply[0:toApplyCount] {
      result[k] = &PlannedMigration{Migration: v}
      if dir == Up { result[k].Queries = v.Up }
      else if dir == Down { result[k].Queries = v.Down }
  }
  \<close>
  For any other direction \<^verbatim>\<open>Queries\<close> stays nil, the empty slice.
\<close>

fun plan_entries :: "MigrationDirection \<Rightarrow> Migration list \<Rightarrow> PlannedMigration list" where
  "plan_entries dir [] = []"
| "plan_entries dir (v # vs) =
     \<lparr>p_Migration = v,
      p_Queries = (if dir = Up then m_Up v else if dir = Down then m_Down v else [])\<rparr>
     # plan_entries dir vs"

text \<open>
  Lines 265 to 284 of \<^verbatim>\<open>PlanMigration\<close>: from the sorted migrations and the id of the
  newest record to the plan. \<^verbatim>\<open>toApply[0:toApplyCount]\<close> is bounds-checked.
\<close>

definition plan_pending ::
  "Migration list \<Rightarrow> string \<Rightarrow> MigrationDirection \<Rightarrow> int \<Rightarrow> PlannedMigration list outcome" where
  "plan_pending migrations current dir max_n =
     (case ToApply migrations current dir of
        Panicked p \<Rightarrow> Panicked p
      | Returned toApply \<Rightarrow>
          (let toApplyCount = int (length toApply);
               toApplyCount = (if max_n > 0 \<and> max_n < toApplyCount then max_n else toApplyCount)
           in if 0 \<le> toApplyCount \<and> toApplyCount \<le> int (length toApply)
              then Returned (plan_entries dir (take (nat toApplyCount) toApply))
              else Panicked IndexOutOfRange))"

text \<open>
  \<^verbatim>\<open>func PlanMigration(db, dialect, m, dir, max)\<close>. \<^verbatim>\<open>sort.Sort(byId(migrations))\<close>
  sorts by \<^verbatim>\<open>Id\<close>; Go's sort is not stable, and the order it gives to migrations of equal
  id is one of those a sort may give; the model takes the stable one.
  \<^verbatim>\<open>var record MigrationRecord\<close> is the zero record, with the empty id; the planner goes
  on when \<^verbatim>\<open>err\<close> is nil or is \<^verbatim>\<open>sql.ErrNoRows\<close>.
\<close>

definition PlanMigration ::
  "'d driver \<Rightarrow> string \<Rightarrow> MigrationSource \<Rightarrow> MigrationDirection \<Rightarrow> int \<Rightarrow> 'd world
     \<Rightarrow> (error + PlannedMigration list \<times> DbMap) outcome \<times> 'd world" where
  "PlanMigration drv dialect m dir max_n w =
     (case getMigrationDbMap dialect of
        Inl err \<Rightarrow> (Returned (Inl err), w)
      | Inr dbMap \<Rightarrow>
          (case DbMap_CreateTablesIfNotExists drv dbMap w of
             (Some err, w1) \<Rightarrow> (Returned (Inl err), w1)
           | (None, w1) \<Rightarrow>
               (case FindMigrations m w1 of
                  (Inl err, w2) \<Rightarrow> (Returned (Inl err), w2)
                | (Inr migrations, w2) \<Rightarrow>
                    (case DbMap_SelectOne drv dbMap \<lparr>r_Id = [], r_AppliedAt = 0\<rparr> w2 of
                       ((err, record), w3) \<Rightarrow>
                          (case (if err = Some ErrNoRows then None else err) of
                             Some e \<Rightarrow> (Returned (Inl e), w3)
                           | None \<Rightarrow>
                               (case plan_pending (sort_key m_Id migrations) (r_Id record)
                                       dir max_n of
                                  Panicked p \<Rightarrow> (Panicked p, w3)
                                | Returned result \<Rightarrow>
                                    (Returned (Inr (result, dbMap)), w3)))))))"

section \<open>ExecMax\<close>

text \<open>
  The statements of one migration:
  \<^verbatim>\<open>
  for _, stmt := range migration.Queries {
      _, err := trans.Exec(stmt)
      if err != nil {
          trans.Rollback()
          return applied, err
      }
  }
  \<close>
  The result of \<^verbatim>\<open>trans.Rollback()\<close> is dropped.
\<close>

fun exec_queries ::
  "'d driver \<Rightarrow> 'd trans \<Rightarrow> string list \<Rightarrow> 'd world \<Rightarrow> (error + 'd trans) \<times> 'd world" where
  "exec_queries drv tx [] w = (Inr tx, w)"
| "exec_queries drv tx (stmt # stmts) w =
     (case Tx_Exec drv tx stmt w of
        (Inl err, w1) \<Rightarrow> (Inl err, snd (Tx_Rollback drv tx w1))
      | (Inr tx1, w1) \<Rightarrow> exec_queries drv tx1 stmts w1)"

text \<open>
  The write to the ledger, lines 206 to 223:
  \<^verbatim>\<open>
  if dir == Up {
      err = trans.Insert(&MigrationRecord{Id: migration.Id, AppliedAt: time.Now()})
      if err != nil { return applied, err }
  } else if dir == Down {
      _, err := trans.Delete(&MigrationRecord{Id: migration.Id})
      if err != nil { return applied, err }
  } else {
      panic("Not possible")
  }
  \<close>
\<close>

definition write_record ::
  "'d driver \<Rightarrow> MigrationDirection \<Rightarrow> 'd trans \<Rightarrow> PlannedMigration \<Rightarrow> 'd world
     \<Rightarrow> (error + 'd trans) outcome \<times> 'd world" where
  "write_record drv dir tx migration w =
     (if dir = Up then
        (case Tx_Insert drv tx
                \<lparr>r_Id = m_Id (p_Migration migration), r_AppliedAt = now drv (log w)\<rparr> w of
           (Inl err, w1) \<Rightarrow> (Returned (Inl err), w1)
         | (Inr tx1, w1) \<Rightarrow> (Returned (Inr tx1), w1))
      else if dir = Down then
        (case Tx_Delete drv tx \<lparr>r_Id = m_Id (p_Migration migration), r_AppliedAt = 0\<rparr> w of
           (Inl err, w1) \<Rightarrow> (Returned (Inl err), w1)
         | (Inr (n, tx1), w1) \<Rightarrow> (Returned (Inr tx1), w1))
      else (Panicked NotPossible, w))"

text \<open>
  One turn of the loop of \<^verbatim>\<open>ExecMax\<close>, from \<^verbatim>\<open>dbMap.Begin()\<close> to \<^verbatim>\<open>trans.Commit()\<close>:
  \<open>Returned (Some err)\<close> where the source has \<^verbatim>\<open>return applied, err\<close>, \<open>Returned None\<close>
  where it goes on to \<^verbatim>\<open>applied++\<close>.
\<close>

definition run_migration ::
  "'d driver \<Rightarrow> DbMap \<Rightarrow> MigrationDirection \<Rightarrow> PlannedMigration \<Rightarrow> 'd world
     \<Rightarrow> error option outcome \<times> 'd world" where
  "run_migration drv dbMap dir migration w =
     (case DbMap_Begin drv dbMap w of
        (Inl err, w1) \<Rightarrow> (Returned (Some err), w1)
      | (Inr tx, w1) \<Rightarrow>
          (case exec_queries drv tx (p_Queries migration) w1 of
             (Inl err, w2) \<Rightarrow> (Returned (Some err), w2)
           | (Inr tx2, w2) \<Rightarrow>
               (case write_record drv dir tx2 migration w2 of
                  (Panicked p, w3) \<Rightarrow> (Panicked p, w3)
                | (Returned (Inl err), w3) \<Rightarrow> (Returned (Some err), w3)
                | (Returned (Inr tx3), w3) \<Rightarrow>
                    (case Tx_Commit drv tx3 w3 of
                       (Some err, w4) \<Rightarrow> (Returned (Some err), w4)
                     | (None, w4) \<Rightarrow> (Returned None, w4)))))"

text \<open>
  \<^verbatim>\<open>applied := 0; for _, migration := range migrations { ...; applied++ }; return applied, nil\<close>
\<close>

fun apply_migrations ::
  "'d driver \<Rightarrow> DbMap \<Rightarrow> MigrationDirection \<Rightarrow> PlannedMigration list \<Rightarrow> int \<Rightarrow> 'd world
     \<Rightarrow> (int \<times> error option) outcome \<times> 'd world" where
  "apply_migrations drv dbMap dir [] applied w = (Returned (applied, None), w)"
| "apply_migrations drv dbMap dir (migration # migrations) applied w =
     (case run_migration drv dbMap dir migration w of
        (Panicked p, w1) \<Rightarrow> (Panicked p, w1)
      | (Returned (Some err), w1) \<Rightarrow> (Returned (applied, Some err), w1)
      | (Returned None, w1) \<Rightarrow> apply_migrations drv dbMap dir migrations (applied + 1) w1)"

text \<open>\<^verbatim>\<open>func ExecMax(db, dialect, m, dir, max) (int, error)\<close>\<close>

definition ExecMax ::
  "'d driver \<Rightarrow> string \<Rightarrow> MigrationSource \<Rightarrow> MigrationDirection \<Rightarrow> int \<Rightarrow> 'd world
     \<Rightarrow> (int \<times> error option) outcome \<times> 'd world" where
  "ExecMax drv dialect m dir max_n w =
     (case PlanMigration drv dialect m dir max_n w of
        (Panicked p, w1) \<Rightarrow> (Panicked p, w1)
      | (Returned (Inl err), w1) \<Rightarrow> (Returned (0, Some err), w1)
      | (Returned (Inr (migrations, dbMap)), w1) \<Rightarrow>
          apply_migrations drv dbMap dir migrations 0 w1)"

text \<open>\<^verbatim>\<open>func Exec(db, dialect, m, dir) (int, error)\<close>\<close>

definition Exec ::
  "'d driver \<Rightarrow> string \<Rightarrow> MigrationSource \<Rightarrow> MigrationDirection \<Rightarrow> 'd world
     \<Rightarrow> (int \<times> error option) outcome \<times> 'd world" where
  "Exec drv dialect m dir w = ExecMax drv dialect m dir 0 w"

section \<open>Notions of the specification, and a concrete scenario\<close>

text \<open>
  The watermark the planner reads from a ledger: the id of its newest record, the empty
  string when there is none.
\<close>

definition watermark :: "MigrationRecord list \<Rightarrow> string" where
  "watermark rs = (case newest rs of None \<Rightarrow> [] | Some r \<Rightarrow> r_Id r)"

text \<open>The ids of a plan, in its order.\<close>

definition plan_ids :: "PlannedMigration list \<Rightarrow> string list" where
  "plan_ids plan = map (\<lambda>p. m_Id (p_Migration p)) plan"

text \<open>The two definitions of the scenario of the specification, and a third.\<close>

definition migration_001 :: Migration where
  "migration_001 =
     \<lparr>m_Id = ''001'', m_Up = [''CREATE TABLE t(x int)''], m_Down = [''DROP TABLE t'']\<rparr>"

definition migration_002 :: Migration where
  "migration_002 =
     \<lparr>m_Id = ''002'', m_Up = [''ALTER TABLE t ADD y int''],
      m_Down = [''ALTER TABLE t DROP COLUMN y'']\<rparr>"

definition migration_003 :: Migration where
  "migration_003 =
     \<lparr>m_Id = ''003'', m_Up = [''CREATE TABLE u(z int)'', ''FAIL'', ''CREATE TABLE v(z int)''],
      m_Down = [''DROP TABLE u'']\<rparr>"

text \<open>
  A database for the scenario: its schema is the list of the statements committed, the
  statement \<open>''FAIL''\<close> fails, nothing else does, and the clock counts the calls.
\<close>

definition script_driver :: "string list driver" where
  "script_driver =
     \<lparr>run_stmt = (\<lambda>stmt d. if stmt = ''FAIL'' then Inl ''syntax error'' else Inr (d @ [stmt])),
      fault = (\<lambda>calls ev. None),
      now = (\<lambda>calls. length calls)\<rparr>"

text \<open>The same database, where writing to \<^verbatim>\<open>gorp_migrations\<close> is denied.\<close>

definition readonly_ledger_driver :: "string list driver" where
  "readonly_ledger_driver =
     script_driver
       \<lparr>fault := (\<lambda>calls ev. case ev of
                     EvInsert x \<Rightarrow> Some ''permission denied''
                   | EvDelete x \<Rightarrow> Some ''permission denied''
                   | _ \<Rightarrow> None)\<rparr>"

definition empty_world :: "string list world" where
  "empty_world = \<lparr>schema = [], ledger = [], open_tx = 0, log = []\<rparr>"

text \<open>A world where migration 001 has been applied.\<close>

definition world_001 :: "string list world" where
  "world_001 =
     \<lparr>schema = [''CREATE TABLE t(x int)''],
      ledger = [\<lparr>r_Id = ''001'', r_AppliedAt = 7\<rparr>],
      open_tx = 0, log = []\<rparr>"

section \<open>Properties of ToApply\<close>

lemma scan_from:
  "k \<le> length migrations \<Longrightarrow>
   ToApply_scan migrations current (int k - 1) =
     Returned (int k - 1 + int (length (takeWhile (\<lambda>m. m_Id m \<le> current) (drop k migrations))))"
proof (induction "length migrations - k" arbitrary: k)
  case 0
  then have "k = length migrations" by simp
  then show ?case by (subst ToApply_scan.simps) simp
next
  case (Suc n)
  then have lt: "k < length migrations" by simp
  have dr: "drop k migrations = migrations ! k # drop (Suc k) migrations"
    using lt by (simp add: Cons_nth_drop_Suc)
  show ?case
  proof (cases "m_Id (migrations ! k) \<le> current")
    case True
    have "ToApply_scan migrations current (int k - 1) =
          ToApply_scan migrations current (int (Suc k) - 1)"
      using lt True by (subst ToApply_scan.simps) simp
    also have "\<dots> = Returned (int (Suc k) - 1 +
        int (length (takeWhile (\<lambda>m. m_Id m \<le> current) (drop (Suc k) migrations))))"
      using Suc.hyps(1) [of "Suc k"] Suc.hyps(2) lt by simp
    finally show ?thesis using True by (simp add: dr)
  next
    case False
    then show ?thesis using lt
      by (subst ToApply_scan.simps) (simp add: dr)
  qed
qed

lemma fill_from:
  "i \<le> n \<Longrightarrow> n \<le> length migrations \<Longrightarrow>
   ToApply_fill migrations (int n - 1) (int i)
      (replicate (n - i) None @ map Some (rev (take i migrations)))
   = Returned (map Some (rev (take n migrations)))"
proof (induction "n - i" arbitrary: i)
  case 0
  then have "i = n" by simp
  then show ?case by (subst ToApply_fill.simps) simp
next
  case (Suc d)
  then have lt: "i < n" and lt': "i < length migrations" by simp_all
  have rep: "replicate (n - i) (None :: Migration option) = replicate (n - Suc i) None @ [None]"
    using lt by (metis Suc_diff_Suc replicate_Suc replicate_append_same)
  have upd: "(replicate (n - i) None @ map Some (rev (take i migrations)))
                [n - Suc i := Some (migrations ! i)]
             = replicate (n - Suc i) None @ map Some (rev (take (Suc i) migrations))"
    using lt' by (simp add: rep take_Suc_conv_app_nth list_update_append)
  have idx: "nat (int n - 1 - int i) = n - Suc i"
    using lt by simp
  have "ToApply_fill migrations (int n - 1) (int i)
          (replicate (n - i) None @ map Some (rev (take i migrations)))
        = ToApply_fill migrations (int n - 1) (int i + 1)
          (replicate (n - Suc i) None @ map Some (rev (take (Suc i) migrations)))"
    using lt lt' Suc.prems
    by (subst ToApply_fill.simps) (simp add: idx upd min_absorb2 del: replicate_Suc)
  also have "\<dots> = Returned (map Some (rev (take n migrations)))"
    using Suc.hyps(1) [of "Suc i"] Suc.hyps(2) lt Suc.prems by (simp add: add.commute)
  finally show ?case .
qed

lemma those_map_Some: "those (map Some xs) = Some xs"
  by (induction xs) simp_all

lemma ToApply_Up_dropWhile:
  "ToApply migrations current Up = Returned (dropWhile (\<lambda>m. m_Id m \<le> current) migrations)"
proof -
  let ?tw = "takeWhile (\<lambda>m. m_Id m \<le> current) migrations"
  have scan: "ToApply_scan migrations current (- 1) = Returned (int (length ?tw) - 1)"
    using scan_from [of 0 migrations current] by simp
  have le: "length ?tw \<le> length migrations"
    by (rule length_takeWhile_le)
  have dr: "drop (length ?tw) migrations = dropWhile (\<lambda>m. m_Id m \<le> current) migrations"
    by (rule dropWhile_eq_drop [symmetric])
  show ?thesis
    using le by (simp add: ToApply_def scan dr)
qed

lemma ToApply_Down_takeWhile:
  "ToApply migrations current Down = Returned (rev (takeWhile (\<lambda>m. m_Id m \<le> current) migrations))"
proof -
  let ?tw = "takeWhile (\<lambda>m. m_Id m \<le> current) migrations"
  have scan: "ToApply_scan migrations current (- 1) = Returned (int (length ?tw) - 1)"
    using scan_from [of 0 migrations current] by simp
  have le: "length ?tw \<le> length migrations"
    by (rule length_takeWhile_le)
  have fill: "ToApply_fill migrations (int (length ?tw) - 1) 0 (replicate (length ?tw) None)
              = Returned (map Some (rev (take (length ?tw) migrations)))"
    using fill_from [of 0 "length ?tw" migrations] le by simp
  have tk: "take (length ?tw) migrations = ?tw"
    by (rule takeWhile_eq_take [symmetric])
  show ?thesis
  proof (cases "length ?tw = 0")
    case True
    then show ?thesis by (simp add: ToApply_def scan Up_def Down_def)
  next
    case False
    then show ?thesis
      by (simp add: ToApply_def scan Up_def Down_def fill non_nil_def those_map_Some tk)
  qed
qed


lemma sorted_takeWhile_filter:
  "sorted (map m_Id ms) \<Longrightarrow>
   takeWhile (\<lambda>m. m_Id m \<le> w) ms = filter (\<lambda>m. m_Id m \<le> w) ms"
proof (induction ms)
  case Nil
  show ?case by simp
next
  case (Cons a ms)
  show ?case
  proof (cases "m_Id a \<le> w")
    case True
    with Cons show ?thesis by simp
  next
    case False
    have "\<forall>m\<in>set ms. \<not> m_Id m \<le> w"
      using Cons.prems False by auto
    then have "filter (\<lambda>m. m_Id m \<le> w) ms = []"
      by (simp add: filter_empty_conv)
    with False show ?thesis by simp
  qed
qed

lemma sorted_dropWhile_filter:
  "sorted (map m_Id ms) \<Longrightarrow>
   dropWhile (\<lambda>m. m_Id m \<le> w) ms = filter (\<lambda>m. w < m_Id m) ms"
proof (induction ms)
  case Nil
  show ?case by simp
next
  case (Cons a ms)
  show ?case
  proof (cases "m_Id a \<le> w")
    case True
    with Cons show ?thesis by simp
  next
    case False
    have "\<forall>m\<in>set (a # ms). w < m_Id m"
      using Cons.prems False by auto
    then have "filter (\<lambda>m. w < m_Id m) (a # ms) = a # ms"
      by (simp only: filter_True)
    with False show ?thesis by simp
  qed
qed


lemma sorted_split_at:
  "sorted (map m_Id ms) \<Longrightarrow>
   ms = filter (\<lambda>m. m_Id m \<le> w) ms @ filter (\<lambda>m. w < m_Id m) ms"
  using takeWhile_dropWhile_id [of "\<lambda>m. m_Id m \<le> w" ms]
  by (simp add: sorted_takeWhile_filter sorted_dropWhile_filter)

lemma sorted_filter_ids: "sorted (map m_Id ms) \<Longrightarrow> sorted (map m_Id (filter P ms))"
  by (induction ms) auto

text \<open>
  Claim C2. For every list of migrations sorted ascending by id and every watermark,
  \<open>ToApply\<close> with direction \<open>Up\<close> returns exactly the migrations whose id is strictly greater
  than the watermark; they are a suffix of the list (the list is those with id at most the
  watermark followed by them), in ascending order of id; it is the whole list when no id is
  at most the watermark.
\<close>

theorem C2_ToApply_Up_suffix:
  "sorted (map m_Id migrations) \<Longrightarrow>
   ToApply migrations current Up = Returned (filter (\<lambda>m. current < m_Id m) migrations) \<and>
   migrations = filter (\<lambda>m. m_Id m \<le> current) migrations
                  @ filter (\<lambda>m. current < m_Id m) migrations \<and>
   sorted (map m_Id (filter (\<lambda>m. current < m_Id m) migrations)) \<and>
   ((\<forall>m\<in>set migrations. \<not> m_Id m \<le> current) \<longrightarrow>
      ToApply migrations current Up = Returned migrations)"
proof (intro conjI impI)
  assume s: "sorted (map m_Id migrations)"
  show up: "ToApply migrations current Up = Returned (filter (\<lambda>m. current < m_Id m) migrations)"
    using s by (simp add: ToApply_Up_dropWhile sorted_dropWhile_filter)
  show "migrations = filter (\<lambda>m. m_Id m \<le> current) migrations
                  @ filter (\<lambda>m. current < m_Id m) migrations"
    using s by (rule sorted_split_at)
  show "sorted (map m_Id (filter (\<lambda>m. current < m_Id m) migrations))"
    using s by (rule sorted_filter_ids)
  assume "\<forall>m\<in>set migrations. \<not> m_Id m \<le> current"
  then have "filter (\<lambda>m. current < m_Id m) migrations = migrations"
    by (auto simp add: filter_id_conv)
  with up show "ToApply migrations current Up = Returned migrations" by simp
qed

theorem C2_ToApply_Up_suffix_witness:
  "sorted (map m_Id [migration_001, migration_002, migration_003]) \<and>
   ToApply [migration_001, migration_002, migration_003] ''001'' Up
     = Returned [migration_002, migration_003] \<and>
   list_all (\<lambda>m. \<not> m_Id m \<le> ''000'') [migration_001, migration_002, migration_003] \<and>
   ToApply [migration_001, migration_002, migration_003] ''000'' Up
     = Returned [migration_001, migration_002, migration_003]"
  using C2_ToApply_Up_suffix [of "[migration_001, migration_002, migration_003]" "''001''"]
        C2_ToApply_Up_suffix [of "[migration_001, migration_002, migration_003]" "''000''"]
  by (simp add: migration_001_def migration_002_def migration_003_def)

text \<open>
  Claim C3. For every list of migrations sorted ascending by id and every watermark,
  \<open>ToApply\<close> with direction \<open>Down\<close> returns the prefix of the migrations whose id is at most
  the watermark, reversed; when no id is at most the watermark it returns the empty list,
  and so it does for the empty watermark of an empty ledger, which is below every id that
  is not itself empty.
\<close>

theorem C3_ToApply_Down_prefix_reversed:
  "sorted (map m_Id migrations) \<Longrightarrow>
   ToApply migrations current Down
     = Returned (rev (filter (\<lambda>m. m_Id m \<le> current) migrations)) \<and>
   migrations = filter (\<lambda>m. m_Id m \<le> current) migrations
                  @ filter (\<lambda>m. current < m_Id m) migrations \<and>
   ((\<forall>m\<in>set migrations. \<not> m_Id m \<le> current) \<longrightarrow>
      ToApply migrations current Down = Returned []) \<and>
   ((\<forall>m\<in>set migrations. m_Id m \<noteq> []) \<longrightarrow> ToApply migrations [] Down = Returned [])"
proof (intro conjI impI)
  assume s: "sorted (map m_Id migrations)"
  show down: "ToApply migrations current Down
     = Returned (rev (filter (\<lambda>m. m_Id m \<le> current) migrations))"
    using s by (simp add: ToApply_Down_takeWhile sorted_takeWhile_filter)
  show "migrations = filter (\<lambda>m. m_Id m \<le> current) migrations
                  @ filter (\<lambda>m. current < m_Id m) migrations"
    using s by (rule sorted_split_at)
  assume "\<forall>m\<in>set migrations. \<not> m_Id m \<le> current"
  then have "filter (\<lambda>m. m_Id m \<le> current) migrations = []"
    by (simp add: filter_empty_conv)
  with down show "ToApply migrations current Down = Returned []" by simp
next
  assume "\<forall>m\<in>set migrations. m_Id m \<noteq> []"
  then have "takeWhile (\<lambda>m. m_Id m \<le> []) migrations = []"
    by (cases migrations) simp_all
  then show "ToApply migrations [] Down = Returned []"
    by (simp add: ToApply_Down_takeWhile)
qed

theorem C3_ToApply_Down_prefix_reversed_witness:
  "sorted (map m_Id [migration_001, migration_002, migration_003]) \<and>
   ToApply [migration_001, migration_002, migration_003] ''002'' Down
     = Returned [migration_002, migration_001] \<and>
   list_all (\<lambda>m. \<not> m_Id m \<le> []) [migration_001, migration_002, migration_003] \<and>
   list_all (\<lambda>m. m_Id m \<noteq> []) [migration_001, migration_002, migration_003] \<and>
   ToApply [migration_001, migration_002, migration_003] [] Down = Returned []"
  using C3_ToApply_Down_prefix_reversed [of "[migration_001, migration_002, migration_003]" "''002''"]
        C3_ToApply_Down_prefix_reversed [of "[migration_001, migration_002, migration_003]" "[]"]
  by (simp add: migration_001_def migration_002_def migration_003_def)

text \<open>
  Claim C6. On a sorted list the scan of \<open>ToApply\<close> ends with the cursor on the greatest
  index whose id is at most the watermark, and with \<open>-1\<close> when no id is; the watermark need
  not be the id of any migration of the list.
\<close>

theorem C6_cursor_greatest_index:
  "sorted (map m_Id migrations) \<Longrightarrow>
   (\<exists>c. ToApply_scan migrations current (- 1) = Returned c \<and>
        (if \<exists>m\<in>set migrations. m_Id m \<le> current
         then 0 \<le> c \<and> c < int (length migrations) \<and>
              m_Id (migrations ! nat c) \<le> current \<and>
              (\<forall>i<length migrations. m_Id (migrations ! i) \<le> current \<longrightarrow> int i \<le> c)
         else c = - 1))"
proof -
  assume s: "sorted (map m_Id migrations)"
  let ?P = "\<lambda>m. m_Id m \<le> current"
  let ?tw = "takeWhile ?P migrations"
  let ?c = "int (length ?tw) - 1"
  have scan: "ToApply_scan migrations current (- 1) = Returned ?c"
    using scan_from [of 0 migrations current] by simp
  have tw: "?tw = filter ?P migrations"
    using s by (rule sorted_takeWhile_filter)
  have le: "length ?tw \<le> length migrations"
    by (rule length_takeWhile_le)
  show ?thesis
  proof (cases "\<exists>m\<in>set migrations. m_Id m \<le> current")
    case False
    then have "filter ?P migrations = []" by (simp add: filter_empty_conv)
    with tw have "?c = - 1" by simp
    with scan False show ?thesis by simp
  next
    case True
    then have "filter ?P migrations \<noteq> []" by (simp add: filter_empty_conv)
    with tw have pos: "0 < length ?tw" by simp
    have last_in: "length ?tw - 1 < length ?tw" using pos by simp
    have "?tw ! (length ?tw - 1) = migrations ! (length ?tw - 1)"
      using last_in by (rule takeWhile_nth)
    moreover have "?tw ! (length ?tw - 1) \<in> set ?tw"
      using last_in by (rule nth_mem)
    ultimately have at_c: "m_Id (migrations ! (length ?tw - 1)) \<le> current"
      by (auto dest: set_takeWhileD)
    have natc: "nat ?c = length ?tw - 1" using pos by simp
    have greatest: "int i \<le> ?c" if i: "i < length migrations"
      and Pi: "m_Id (migrations ! i) \<le> current" for i
    proof (rule ccontr)
      assume "\<not> int i \<le> ?c"
      then have ge: "length ?tw \<le> i" by simp
      have "migrations ! i = drop (length ?tw) migrations ! (i - length ?tw)"
        using ge i by simp
      moreover have "i - length ?tw < length (drop (length ?tw) migrations)"
        using ge i by simp
      ultimately have "migrations ! i \<in> set (drop (length ?tw) migrations)"
        by (metis nth_mem)
      moreover have "drop (length ?tw) migrations = filter (\<lambda>m. current < m_Id m) migrations"
        using s sorted_dropWhile_filter [of migrations current]
          dropWhile_eq_drop [of ?P migrations] by simp
      ultimately have "current < m_Id (migrations ! i)" by simp
      with Pi show False by simp
    qed
    have "0 \<le> ?c \<and> ?c < int (length migrations) \<and>
          m_Id (migrations ! nat ?c) \<le> current \<and>
          (\<forall>i<length migrations. m_Id (migrations ! i) \<le> current \<longrightarrow> int i \<le> ?c)"
      using pos le at_c greatest by (simp only: natc) auto
    with scan True show ?thesis by simp
  qed
qed

theorem C6_cursor_greatest_index_witness:
  "sorted (map m_Id [migration_001, migration_003]) \<and>
   ToApply_scan [migration_001, migration_003] ''002'' (- 1) = Returned 0 \<and>
   ToApply_scan [migration_001, migration_003] ''000'' (- 1) = Returned (- 1)"
proof -
  let ?ms = "[migration_001, migration_003]"
  have s: "sorted (map m_Id ?ms)"
    by (simp add: migration_001_def migration_003_def)
  obtain c where c: "ToApply_scan ?ms ''002'' (- 1) = Returned c"
    and range: "0 \<le> c" "c < 2" and at_c: "m_Id (?ms ! nat c) \<le> ''002''"
    using C6_cursor_greatest_index [OF s, of "''002''"]
    by (auto simp add: migration_001_def migration_003_def)
  have "nat c = 0 \<or> nat c = 1" using range by arith
  then have "nat c = 0"
    using at_c by (auto simp add: migration_003_def)
  with range have "c = 0" by simp
  moreover have "ToApply_scan ?ms ''000'' (- 1) = Returned (- 1)"
    using C6_cursor_greatest_index [OF s, of "''000''"]
    by (auto simp add: migration_001_def migration_003_def)
  ultimately show ?thesis using s c by simp
qed

subsection \<open>ToApply on slices that may hold nil\<close>

lemma scan_ptr_map_Some:
  "ToApply_scan_ptr (map Some migrations) current index = ToApply_scan migrations current index"
proof (induction migrations current index rule: ToApply_scan.induct)
  case (1 migrations current index)
  show ?case
  proof (cases "index < int (length migrations) - 1 \<and>
                0 \<le> index + 1 \<and> index + 1 < int (length migrations) \<and>
                m_Id (migrations ! nat (index + 1)) \<le> current")
    case True
    then have "ToApply_scan_ptr (map Some migrations) current (index + 1)
               = ToApply_scan migrations current (index + 1)"
      using "1.IH" by simp
    moreover have "nat (index + 1) < length migrations" using True by linarith
    then have "map Some migrations ! nat (index + 1) = Some (migrations ! nat (index + 1))"
      by (rule nth_map)
    ultimately show ?thesis using True
      by (subst ToApply_scan_ptr.simps, subst ToApply_scan.simps) simp
  next
    case False
    then show ?thesis
      by (subst ToApply_scan_ptr.simps, subst ToApply_scan.simps) auto
  qed
qed

lemma fill_ptr_map_Some:
  "ToApply_fill_ptr (map Some migrations) index i toApply
   = ToApply_fill migrations index i toApply"
proof (induction migrations index i toApply rule: ToApply_fill.induct)
  case (1 migrations index i toApply)
  show ?case
  proof (cases "i < index + 1 \<and> 0 \<le> i \<and> i < int (length migrations) \<and>
                0 \<le> index - i \<and> index - i < int (length toApply)")
    case True
    then have "ToApply_fill_ptr (map Some migrations) index (i + 1)
                 (toApply[nat (index - i) := Some (migrations ! nat i)])
               = ToApply_fill migrations index (i + 1)
                 (toApply[nat (index - i) := Some (migrations ! nat i)])"
      using "1.IH" by simp
    moreover have "nat i < length migrations" using True by linarith
    then have "map Some migrations ! nat i = Some (migrations ! nat i)"
      by (rule nth_map)
    ultimately show ?thesis using True
      by (subst ToApply_fill_ptr.simps, subst ToApply_fill.simps) simp
  next
    case False
    then show ?thesis
      by (subst ToApply_fill_ptr.simps, subst ToApply_fill.simps) auto
  qed
qed

text \<open>On a slice without nil the two models of ToApply agree.\<close>

lemma ToApply_ptr_map_Some:
  "ToApply_ptr (map Some migrations) current direction
   = (case ToApply migrations current direction of
        Panicked p \<Rightarrow> Panicked p
      | Returned toApply \<Rightarrow> Returned (map Some toApply))"
proof -
  let ?tw = "takeWhile (\<lambda>m. m_Id m \<le> current) migrations"
  have scan: "ToApply_scan migrations current (- 1) = Returned (int (length ?tw) - 1)"
    using scan_from [of 0 migrations current] by simp
  have le: "length ?tw \<le> length migrations"
    by (rule length_takeWhile_le)
  have fill: "ToApply_fill migrations (int (length ?tw) - 1) 0 (replicate (length ?tw) None)
              = Returned (map Some (rev (take (length ?tw) migrations)))"
    using fill_from [of 0 "length ?tw" migrations] le by simp
  show ?thesis
    using le
    by (simp add: ToApply_ptr_def ToApply_def scan_ptr_map_Some fill_ptr_map_Some scan fill
        non_nil_def those_map_Some drop_map)
qed

lemma scan_ptr_range:
  "k \<le> length migrations \<Longrightarrow>
   ToApply_scan_ptr migrations current (int k - 1) = Panicked NilPointer \<or>
   (\<exists>c. ToApply_scan_ptr migrations current (int k - 1) = Returned c \<and>
        int k - 1 \<le> c \<and> c < int (length migrations))"
proof (induction "length migrations - k" arbitrary: k)
  case 0
  then have "k = length migrations" by simp
  then show ?case by (subst ToApply_scan_ptr.simps) simp
next
  case (Suc n)
  then have lt: "k < length migrations" by simp
  show ?case
  proof (cases "migrations ! k")
    case None
    then show ?thesis using lt by (subst ToApply_scan_ptr.simps) simp
  next
    case (Some m)
    show ?thesis
    proof (cases "m_Id m \<le> current")
      case True
      have step: "ToApply_scan_ptr migrations current (int k - 1)
                  = ToApply_scan_ptr migrations current (int (Suc k) - 1)"
        using lt Some True by (subst ToApply_scan_ptr.simps) simp
      have "n = length migrations - Suc k" "Suc k \<le> length migrations"
        using Suc.hyps(2) lt by simp_all
      from Suc.hyps(1) [OF this] show ?thesis
        unfolding step by auto
    next
      case False
      then show ?thesis using lt Some
        by (subst ToApply_scan_ptr.simps, subst ToApply_scan_ptr.simps) simp
    qed
  qed
qed

lemma fill_ptr_returns:
  "i \<le> n \<Longrightarrow> n \<le> length migrations \<Longrightarrow> length toApply = n \<Longrightarrow>
   \<exists>r. ToApply_fill_ptr migrations (int n - 1) (int i) toApply = Returned r"
proof (induction "n - i" arbitrary: i toApply)
  case 0
  then have "i = n" by simp
  then show ?case by (subst ToApply_fill_ptr.simps) simp
next
  case (Suc d)
  then have lt: "i < n" by simp
  let ?next = "toApply[nat (int n - 1 - int i) := migrations ! i]"
  have step: "ToApply_fill_ptr migrations (int n - 1) (int i) toApply
              = ToApply_fill_ptr migrations (int n - 1) (int (Suc i)) ?next"
    using lt Suc.prems by (subst ToApply_fill_ptr.simps) (simp add: add.commute)
  have "d = n - Suc i" "Suc i \<le> n" "length ?next = n"
    using Suc.hyps(2) lt Suc.prems by simp_all
  from Suc.hyps(1) [OF this(1,2) Suc.prems(2) this(3)] show ?case
    unfolding step .
qed


lemma ToApply_ptr_never_out_of_range:
  assumes "direction = Up \<or> direction = Down"
  shows "ToApply_ptr migrations current direction = Panicked NilPointer \<or>
         (\<exists>r. ToApply_ptr migrations current direction = Returned r)"
proof -
  from scan_ptr_range [of 0 migrations current]
  consider "ToApply_scan_ptr migrations current (- 1) = Panicked NilPointer"
    | c where "ToApply_scan_ptr migrations current (- 1) = Returned c"
        "- 1 \<le> c" "c < int (length migrations)"
    by auto
  then show ?thesis
  proof cases
    case 1
    then show ?thesis by (simp add: ToApply_ptr_def)
  next
    case (2 c)
    show ?thesis
    proof (cases "direction = Up")
      case True
      then show ?thesis using 2 by (simp add: ToApply_ptr_def)
    next
      case False
      with assms have d: "direction = Down" by simp
      show ?thesis
      proof (cases "c = - 1")
        case True
        then show ?thesis using 2 d by (simp add: ToApply_ptr_def)
      next
        case False
        let ?n = "nat (c + 1)"
        have n: "int ?n - 1 = c" "?n \<le> length migrations" using 2 by simp_all
        from fill_ptr_returns [of 0 ?n migrations "replicate ?n None"] n
        obtain r where "ToApply_fill_ptr migrations c 0 (replicate ?n None) = Returned r"
          by auto
        then show ?thesis using 2 d False by (simp add: ToApply_ptr_def)
      qed
    qed
  qed
qed

lemma no_nil_map_Some: "None \<notin> set ps \<Longrightarrow> map Some (map the ps) = ps"
  by (induction ps) auto

text \<open>
  Claim C10 says that \<open>ToApply\<close> returns a list for every list of migrations. On the slice
  that holds one nil pointer the scan reads the field \<^verbatim>\<open>Id\<close> of that entry and the call
  panics, for both directions.
\<close>

theorem C10_ToApply_ptr_nil_counterexample:
  "ToApply_ptr [None] [] Up = Panicked NilPointer \<and>
   ToApply_ptr [None] [] Down = Panicked NilPointer"
  by code_simp

text \<open>
  Claim C10, amended. For both directions \<open>Up\<close> and \<open>Down\<close>, every slice of migrations
  and every watermark, \<open>ToApply\<close> terminates (\<open>ToApply_scan_ptr\<close> and \<open>ToApply_fill_ptr\<close>
  are total functions) and no read or write of it leaves the bounds of a slice: it returns a
  list, or it panics on the field read of a nil entry. On every slice without a nil entry it
  returns a list, which has no nil entry; on the empty slice it returns the empty list.
\<close>

theorem C10_ToApply_total_without_nil:
  "(ToApply_ptr migrations current Up = Panicked NilPointer \<or>
      (\<exists>r. ToApply_ptr migrations current Up = Returned r)) \<and>
   (ToApply_ptr migrations current Down = Panicked NilPointer \<or>
      (\<exists>r. ToApply_ptr migrations current Down = Returned r)) \<and>
   (None \<notin> set migrations \<longrightarrow>
      (\<exists>r. ToApply_ptr migrations current Up = Returned r \<and> None \<notin> set r) \<and>
      (\<exists>r. ToApply_ptr migrations current Down = Returned r \<and> None \<notin> set r)) \<and>
   ToApply_ptr [] current Up = Returned [] \<and>
   ToApply_ptr [] current Down = Returned []"
proof (intro conjI impI)
  show "ToApply_ptr migrations current Up = Panicked NilPointer \<or>
        (\<exists>r. ToApply_ptr migrations current Up = Returned r)"
    by (rule ToApply_ptr_never_out_of_range) simp
  show "ToApply_ptr migrations current Down = Panicked NilPointer \<or>
        (\<exists>r. ToApply_ptr migrations current Down = Returned r)"
    by (rule ToApply_ptr_never_out_of_range) simp
  show "ToApply_ptr [] current Up = Returned []"
    using ToApply_ptr_map_Some [of "[]" current Up] by (simp add: ToApply_Up_dropWhile)
  show "ToApply_ptr [] current Down = Returned []"
    using ToApply_ptr_map_Some [of "[]" current Down] by (simp add: ToApply_Down_takeWhile)
next
  assume "None \<notin> set migrations"
  then have ms: "migrations = map Some (map the migrations)"
    by (rule no_nil_map_Some [symmetric])
  have "ToApply_ptr (map Some (map the migrations)) current Up
        = Returned (map Some (dropWhile (\<lambda>m. m_Id m \<le> current) (map the migrations)))"
    by (simp only: ToApply_ptr_map_Some ToApply_Up_dropWhile outcome.case)
  then have "ToApply_ptr migrations current Up
        = Returned (map Some (dropWhile (\<lambda>m. m_Id m \<le> current) (map the migrations)))"
    using ms by simp
  then show "\<exists>r. ToApply_ptr migrations current Up = Returned r \<and> None \<notin> set r"
    by auto
next
  assume "None \<notin> set migrations"
  then have ms: "migrations = map Some (map the migrations)"
    by (rule no_nil_map_Some [symmetric])
  have "ToApply_ptr (map Some (map the migrations)) current Down
        = Returned (map Some (rev (takeWhile (\<lambda>m. m_Id m \<le> current) (map the migrations))))"
    by (simp only: ToApply_ptr_map_Some ToApply_Down_takeWhile outcome.case)
  then have "ToApply_ptr migrations current Down
        = Returned (map Some (rev (takeWhile (\<lambda>m. m_Id m \<le> current) (map the migrations))))"
    using ms by simp
  then show "\<exists>r. ToApply_ptr migrations current Down = Returned r \<and> None \<notin> set r"
    by auto
qed

theorem C10_ToApply_total_without_nil_witness:
  "None \<notin> set [Some migration_001, Some migration_002] \<and>
   ToApply_ptr [Some migration_001, Some migration_002] ''001'' Up
     = Returned [Some migration_002] \<and>
   ToApply_ptr [Some migration_001, Some migration_002] ''001'' Down
     = Returned [Some migration_001]"
proof -
  let ?ms = "[Some migration_001, Some migration_002]"
  have nn: "None \<notin> set ?ms" by simp
  from C10_ToApply_total_without_nil [of ?ms "''001''"] nn
  obtain u d where "ToApply_ptr ?ms ''001'' Up = Returned u"
    and "ToApply_ptr ?ms ''001'' Down = Returned d"
    by blast
  moreover have "ToApply_ptr ?ms ''001'' Up = Returned [Some migration_002]"
    by code_simp
  moreover have "ToApply_ptr ?ms ''001'' Down = Returned [Some migration_001]"
    by code_simp
  ultimately show ?thesis using nn by simp
qed


section \<open>Properties of the executor\<close>

subsection \<open>What each call does to the world\<close>

lemma Tx_Exec_world:
  "snd (Tx_Exec drv tx stmt w) = w\<lparr>log := log w @ [EvExec stmt]\<rparr>"
  by (simp add: Tx_Exec_def driver_call_def split: option.splits sum.splits)

lemma Tx_Exec_Inr:
  "Tx_Exec drv tx stmt w = (Inr tx', w') \<Longrightarrow> t_ledger tx' = t_ledger tx"
  by (auto simp add: Tx_Exec_def driver_call_def split: option.splits sum.splits)

lemma Tx_Rollback_world:
  "snd (Tx_Rollback drv tx w) = w\<lparr>log := log w @ [EvRollback], open_tx := open_tx w - 1\<rparr>"
  by (simp add: Tx_Rollback_def driver_call_def)

lemma exec_queries_Inr:
  "exec_queries drv tx qs w = (Inr tx', w') \<Longrightarrow>
   w' = w\<lparr>log := log w @ map EvExec qs\<rparr> \<and> t_ledger tx' = t_ledger tx"
proof (induction qs arbitrary: tx w)
  case Nil
  then show ?case by simp
next
  case (Cons q qs)
  obtain r w1 where ex: "Tx_Exec drv tx q w = (r, w1)" by (cases "Tx_Exec drv tx q w")
  with Cons.prems obtain tx1 where r: "r = Inr tx1"
    by (cases r) auto
  have w1: "w1 = w\<lparr>log := log w @ [EvExec q]\<rparr>"
    using Tx_Exec_world [of drv tx q w] ex by simp
  have "exec_queries drv tx1 qs w1 = (Inr tx', w')"
    using Cons.prems ex r by simp
  from Cons.IH [OF this] show ?case
    using Tx_Exec_Inr [of drv tx q w tx1 w1] ex r w1 by simp
qed

lemma exec_queries_Inl:
  "exec_queries drv tx qs w = (Inl err, w') \<Longrightarrow>
   \<exists>pre stmt post tx1.
      qs = pre @ stmt # post \<and>
      exec_queries drv tx pre w = (Inr tx1, w\<lparr>log := log w @ map EvExec pre\<rparr>) \<and>
      fst (Tx_Exec drv tx1 stmt (w\<lparr>log := log w @ map EvExec pre\<rparr>)) = Inl err \<and>
      w' = w\<lparr>log := log w @ map EvExec (pre @ [stmt]) @ [EvRollback], open_tx := open_tx w - 1\<rparr>"
proof (induction qs arbitrary: tx w)
  case Nil
  then show ?case by simp
next
  case (Cons q qs)
  obtain r w1 where ex: "Tx_Exec drv tx q w = (r, w1)" by (cases "Tx_Exec drv tx q w")
  have w1: "w1 = w\<lparr>log := log w @ [EvExec q]\<rparr>"
    using Tx_Exec_world [of drv tx q w] ex by simp
  show ?case
  proof (cases r)
    case (Inl e)
    with Cons.prems ex have "e = err" and "w' = snd (Tx_Rollback drv tx w1)" by simp_all
    then have "q # qs = [] @ q # qs \<and>
      exec_queries drv tx [] w = (Inr tx, w\<lparr>log := log w @ map EvExec []\<rparr>) \<and>
      fst (Tx_Exec drv tx q (w\<lparr>log := log w @ map EvExec []\<rparr>)) = Inl err \<and>
      w' = w\<lparr>log := log w @ map EvExec ([] @ [q]) @ [EvRollback], open_tx := open_tx w - 1\<rparr>"
      using ex Inl w1 by (simp add: Tx_Rollback_world)
    then show ?thesis by blast
  next
    case (Inr tx1)
    then have "exec_queries drv tx1 qs w1 = (Inl err, w')"
      using Cons.prems ex by simp
    from Cons.IH [OF this] obtain pre stmt post tx2 where
      qs: "qs = pre @ stmt # post" and
      pre: "exec_queries drv tx1 pre w1 = (Inr tx2, w1\<lparr>log := log w1 @ map EvExec pre\<rparr>)" and
      st: "fst (Tx_Exec drv tx2 stmt (w1\<lparr>log := log w1 @ map EvExec pre\<rparr>)) = Inl err" and
      w': "w' = w1\<lparr>log := log w1 @ map EvExec (pre @ [stmt]) @ [EvRollback],
                    open_tx := open_tx w1 - 1\<rparr>"
      by blast
    have "q # qs = (q # pre) @ stmt # post \<and>
      exec_queries drv tx (q # pre) w = (Inr tx2, w\<lparr>log := log w @ map EvExec (q # pre)\<rparr>) \<and>
      fst (Tx_Exec drv tx2 stmt (w\<lparr>log := log w @ map EvExec (q # pre)\<rparr>)) = Inl err \<and>
      w' = w\<lparr>log := log w @ map EvExec ((q # pre) @ [stmt]) @ [EvRollback],
               open_tx := open_tx w - 1\<rparr>"
      using qs pre st w' ex Inr w1 by simp
    then show ?thesis by blast
  qed
qed

lemma exec_queries_append_fail:
  "exec_queries drv tx pre w = (Inr tx1, w1) \<Longrightarrow>
   Tx_Exec drv tx1 stmt w1 = (Inl err, w2) \<Longrightarrow>
   exec_queries drv tx (pre @ stmt # post) w = (Inl err, snd (Tx_Rollback drv tx1 w2))"
proof (induction pre arbitrary: tx w)
  case Nil
  then show ?case by simp
next
  case (Cons q pre)
  then show ?case
    by (auto split: prod.splits sum.splits)
qed


lemma DbMap_Begin_Inr:
  "DbMap_Begin drv dbMap w = (Inr tx, w') \<Longrightarrow>
   tx = \<lparr>t_schema = schema w, t_ledger = ledger w\<rparr> \<and>
   w' = w\<lparr>log := log w @ [EvBegin], open_tx := open_tx w + 1\<rparr>"
  by (auto simp add: DbMap_Begin_def driver_call_def split: option.splits)

lemma DbMap_Begin_Inl:
  "DbMap_Begin drv dbMap w = (Inl err, w') \<Longrightarrow> w' = w\<lparr>log := log w @ [EvBegin]\<rparr>"
  by (auto simp add: DbMap_Begin_def driver_call_def split: option.splits)

lemma write_record_world:
  "write_record drv dir tx pm w = (r, w') \<Longrightarrow>
   w' = (if dir = Up then w\<lparr>log := log w @ [EvInsert (m_Id (p_Migration pm))]\<rparr>
         else if dir = Down then w\<lparr>log := log w @ [EvDelete (m_Id (p_Migration pm))]\<rparr>
         else w)"
  by (auto simp add: write_record_def Tx_Insert_def Tx_Delete_def driver_call_def
      split: option.splits if_splits)

lemma write_record_Inr:
  "write_record drv dir tx pm w = (Returned (Inr tx'), w') \<Longrightarrow>
   t_schema tx' = t_schema tx \<and>
   (dir = Up \<or> dir = Down) \<and>
   (dir = Up \<longrightarrow> m_Id (p_Migration pm) \<notin> set (map r_Id (t_ledger tx)) \<and>
       t_ledger tx' = t_ledger tx
          @ [\<lparr>r_Id = m_Id (p_Migration pm), r_AppliedAt = now drv (log w)\<rparr>]) \<and>
   (dir \<noteq> Up \<longrightarrow> t_ledger tx' = filter (\<lambda>x. r_Id x \<noteq> m_Id (p_Migration pm)) (t_ledger tx))"
  by (auto simp add: write_record_def Tx_Insert_def Tx_Delete_def driver_call_def
      split: option.splits if_splits)

lemma Tx_Commit_None:
  "Tx_Commit drv tx w = (None, w') \<Longrightarrow>
   w' = w\<lparr>log := log w @ [EvCommit], schema := t_schema tx, ledger := t_ledger tx,
          open_tx := open_tx w - 1\<rparr>"
  by (auto simp add: Tx_Commit_def driver_call_def split: option.splits)

lemma Tx_Commit_Some:
  "Tx_Commit drv tx w = (Some err, w') \<Longrightarrow>
   w' = w\<lparr>log := log w @ [EvCommit], open_tx := open_tx w - 1\<rparr>"
  by (auto simp add: Tx_Commit_def driver_call_def split: option.splits)

text \<open>A turn of the loop that succeeds.\<close>

lemma run_migration_ok:
  assumes "run_migration drv dbMap dir pm w = (Returned None, w')"
  shows "(dir = Up \<or> dir = Down) \<and>
         open_tx w' = open_tx w \<and>
         log w' = log w @ EvBegin # map EvExec (p_Queries pm)
                    @ [if dir = Up then EvInsert (m_Id (p_Migration pm))
                       else EvDelete (m_Id (p_Migration pm)), EvCommit] \<and>
         (dir = Up \<longrightarrow> m_Id (p_Migration pm) \<notin> set (map r_Id (ledger w)) \<and>
            (\<exists>t. ledger w' = ledger w @ [\<lparr>r_Id = m_Id (p_Migration pm), r_AppliedAt = t\<rparr>])) \<and>
         (dir \<noteq> Up \<longrightarrow> ledger w' = filter (\<lambda>x. r_Id x \<noteq> m_Id (p_Migration pm)) (ledger w))"
proof -
  obtain tx w1 where b: "DbMap_Begin drv dbMap w = (Inr tx, w1)"
    using assms by (auto simp add: run_migration_def split: prod.splits sum.splits)
  obtain tx2 w2 where q: "exec_queries drv tx (p_Queries pm) w1 = (Inr tx2, w2)"
    using assms b by (auto simp add: run_migration_def split: prod.splits sum.splits)
  obtain tx3 w3 where wr: "write_record drv dir tx2 pm w2 = (Returned (Inr tx3), w3)"
    using assms b q
    by (auto simp add: run_migration_def split: prod.splits sum.splits outcome.splits)
  have c: "Tx_Commit drv tx3 w3 = (None, w')"
    using assms b q wr
    by (auto simp add: run_migration_def split: prod.splits option.splits)
  note B = DbMap_Begin_Inr [OF b]
  note Q = exec_queries_Inr [OF q]
  note W = write_record_Inr [OF wr]
  note W' = write_record_world [OF wr]
  note C = Tx_Commit_None [OF c]
  from W have dir: "dir = Up \<or> dir = Down" by simp
  have led: "t_ledger tx2 = ledger w" using B Q by simp
  show ?thesis
  proof (cases "dir = Up")
    case True
    then show ?thesis using B Q W W' C led by auto
  next
    case False
    with dir have "dir = Down" by simp
    then show ?thesis using False B Q W W' C led by auto
  qed
qed

text \<open>A turn of the loop that ends in an error leaves the committed state as it was.\<close>

lemma run_migration_committed:
  assumes "run_migration drv dbMap dir pm w = (r, w')" and "r \<noteq> Returned None"
  shows "schema w' = schema w \<and> ledger w' = ledger w"
proof -
  obtain rb w1 where b: "DbMap_Begin drv dbMap w = (rb, w1)"
    by (cases "DbMap_Begin drv dbMap w")
  show ?thesis
  proof (cases rb)
    case (Inl e)
    then show ?thesis using assms b DbMap_Begin_Inl [of drv dbMap w e w1]
      by (auto simp add: run_migration_def)
  next
    case (Inr tx)
    note B = DbMap_Begin_Inr [OF b [unfolded Inr]]
    obtain rq w2 where q: "exec_queries drv tx (p_Queries pm) w1 = (rq, w2)"
      by (cases "exec_queries drv tx (p_Queries pm) w1")
    show ?thesis
    proof (cases rq)
      case (Inl e)
      from exec_queries_Inl [OF q [unfolded Inl]] B
      have "schema w2 = schema w \<and> ledger w2 = ledger w" by auto
      then show ?thesis using assms b Inr q Inl by (auto simp add: run_migration_def)
    next
      case tx2: (Inr tx2)
      note Q = exec_queries_Inr [OF q [unfolded tx2]]
      obtain rw w3 where wr: "write_record drv dir tx2 pm w2 = (rw, w3)"
        by (cases "write_record drv dir tx2 pm w2")
      note W' = write_record_world [OF wr]
      have w3: "schema w3 = schema w \<and> ledger w3 = ledger w"
        using W' Q B by (auto split: if_splits)
      show ?thesis
      proof (cases rw)
        case (Panicked p)
        then show ?thesis using assms b Inr q tx2 wr w3 by (auto simp add: run_migration_def)
      next
        case (Returned x)
        show ?thesis
        proof (cases x)
          case (Inl e)
          then show ?thesis using assms b Inr q tx2 wr w3 Returned
            by (auto simp add: run_migration_def)
        next
          case tx3: (Inr tx3)
          obtain rc w4 where c: "Tx_Commit drv tx3 w3 = (rc, w4)"
            by (cases "Tx_Commit drv tx3 w3")
          show ?thesis
          proof (cases rc)
            case None
            then show ?thesis using assms b Inr q tx2 wr Returned tx3 c
              by (auto simp add: run_migration_def)
          next
            case (Some e)
            then show ?thesis
              using assms b Inr q tx2 wr Returned tx3 c w3 Tx_Commit_Some [of drv tx3 w3 e w4]
              by (auto simp add: run_migration_def)
          qed
        qed
      qed
    qed
  qed
qed


text \<open>A turn of the loop in which a statement fails.\<close>

lemma run_migration_stmt_fails:
  assumes b: "DbMap_Begin drv dbMap w = (Inr tx, w1)"
    and qs: "p_Queries pm = pre @ stmt # post"
    and pre: "exec_queries drv tx pre w1 = (Inr tx1, w2)"
    and st: "Tx_Exec drv tx1 stmt w2 = (Inl err, w3)"
  shows "\<exists>w'. run_migration drv dbMap dir pm w = (Returned (Some err), w') \<and>
              log w' = log w @ EvBegin # map EvExec (pre @ [stmt]) @ [EvRollback] \<and>
              open_tx w' = open_tx w \<and> schema w' = schema w \<and> ledger w' = ledger w"
proof -
  let ?w' = "snd (Tx_Rollback drv tx1 w3)"
  have q: "exec_queries drv tx (p_Queries pm) w1 = (Inl err, ?w')"
    using exec_queries_append_fail [OF pre st] qs by simp
  have run: "run_migration drv dbMap dir pm w = (Returned (Some err), ?w')"
    using b q by (simp add: run_migration_def)
  note B = DbMap_Begin_Inr [OF b]
  note Q = exec_queries_Inr [OF pre]
  have w3: "w3 = w2\<lparr>log := log w2 @ [EvExec stmt]\<rparr>"
    using Tx_Exec_world [of drv tx1 stmt w2] st by simp
  have "log ?w' = log w @ EvBegin # map EvExec (pre @ [stmt]) @ [EvRollback] \<and>
        open_tx ?w' = open_tx w \<and> schema ?w' = schema w \<and> ledger ?w' = ledger w"
    using B Q w3 by (simp add: Tx_Rollback_world)
  with run show ?thesis by blast
qed

subsection \<open>The loop of ExecMax\<close>

lemma plan_ids_Cons [simp]: "plan_ids (pm # pms) = m_Id (p_Migration pm) # plan_ids pms"
  by (simp add: plan_ids_def)

lemma plan_ids_Nil [simp]: "plan_ids [] = []"
  by (simp add: plan_ids_def)

lemma plan_ids_append [simp]: "plan_ids (xs @ ys) = plan_ids xs @ plan_ids ys"
  by (simp add: plan_ids_def)

lemma apply_migrations_ok:
  "apply_migrations drv dbMap dir pms applied w = (Returned (n, None), w') \<Longrightarrow>
   n = applied + int (length pms) \<and>
   open_tx w' = open_tx w \<and>
   length (filter (\<lambda>e. e = EvCommit) (log w'))
     = length (filter (\<lambda>e. e = EvCommit) (log w)) + length pms \<and>
   (dir = Up \<longrightarrow> (\<exists>new. ledger w' = ledger w @ new \<and> map r_Id new = plan_ids pms)) \<and>
   (dir \<noteq> Up \<longrightarrow> ledger w' = filter (\<lambda>x. r_Id x \<notin> set (plan_ids pms)) (ledger w))"
proof (induction pms arbitrary: applied w)
  case Nil
  then show ?case by simp
next
  case (Cons pm pms)
  obtain r w1 where run: "run_migration drv dbMap dir pm w = (r, w1)"
    by (cases "run_migration drv dbMap dir pm w")
  have r: "r = Returned None"
    using Cons.prems run by (auto split: outcome.splits option.splits)
  have rest: "apply_migrations drv dbMap dir pms (applied + 1) w1 = (Returned (n, None), w')"
    using Cons.prems run r by simp
  note IH = Cons.IH [OF rest]
  note R = run_migration_ok [OF run [unfolded r]]
  have commits: "length (filter (\<lambda>e. e = EvCommit) (log w1))
                 = length (filter (\<lambda>e. e = EvCommit) (log w)) + 1"
    using R by (auto simp add: filter_map comp_def)
  show ?case
  proof (cases "dir = Up")
    case True
    from R True obtain t where
      w1: "ledger w1 = ledger w @ [\<lparr>r_Id = m_Id (p_Migration pm), r_AppliedAt = t\<rparr>]" by auto
    from IH True obtain new where
      new: "ledger w' = ledger w1 @ new" "map r_Id new = plan_ids pms" by auto
    have "ledger w' = ledger w @ (\<lparr>r_Id = m_Id (p_Migration pm), r_AppliedAt = t\<rparr> # new) \<and>
          map r_Id (\<lparr>r_Id = m_Id (p_Migration pm), r_AppliedAt = t\<rparr> # new)
            = plan_ids (pm # pms)"
      using w1 new by simp
    then have "\<exists>new. ledger w' = ledger w @ new \<and> map r_Id new = plan_ids (pm # pms)"
      by blast
    then show ?thesis using IH R True commits by simp
  next
    case False
    have "ledger w' = filter (\<lambda>x. r_Id x \<notin> set (plan_ids (pm # pms))) (ledger w)"
      using IH R False by (auto intro: filter_cong)
    then show ?thesis using IH R False commits by simp
  qed
qed

lemma apply_migrations_append:
  "apply_migrations drv dbMap dir done applied w = (Returned (n, None), w1) \<Longrightarrow>
   apply_migrations drv dbMap dir (done @ rest) applied w
     = apply_migrations drv dbMap dir rest n w1"
proof (induction "done" arbitrary: applied w)
  case Nil
  then show ?case by simp
next
  case (Cons pm pms)
  obtain r w0 where run: "run_migration drv dbMap dir pm w = (r, w0)"
    by (cases "run_migration drv dbMap dir pm w")
  have r: "r = Returned None"
    using Cons.prems run by (auto split: outcome.splits option.splits)
  show ?case using Cons run r by simp
qed

text \<open>The count returned never exceeds the number of migrations planned.\<close>

lemma apply_migrations_count:
  "apply_migrations drv dbMap dir pms applied w = (Returned (n, e), w') \<Longrightarrow>
   applied \<le> n \<and> n \<le> applied + int (length pms)"
proof (induction pms arbitrary: applied w)
  case Nil
  then show ?case by simp
next
  case (Cons pm pms)
  obtain r w1 where run: "run_migration drv dbMap dir pm w = (r, w1)"
    by (cases "run_migration drv dbMap dir pm w")
  show ?case
  proof (cases "r = Returned None")
    case True
    then have "apply_migrations drv dbMap dir pms (applied + 1) w1 = (Returned (n, e), w')"
      using Cons.prems run by simp
    from Cons.IH [OF this] show ?thesis by simp
  next
    case False
    then show ?thesis using Cons.prems run
      by (auto split: outcome.splits option.splits)
  qed
qed


subsection \<open>The planner\<close>

lemma map_p_Migration_plan_entries [simp]: "map p_Migration (plan_entries dir vs) = vs"
  by (induction vs) simp_all

lemma plan_ids_plan_entries [simp]: "plan_ids (plan_entries dir vs) = map m_Id vs"
  by (induction vs) simp_all

lemma length_plan_entries [simp]: "length (plan_entries dir vs) = length vs"
  by (induction vs) simp_all

lemma p_Queries_plan_entries:
  "p \<in> set (plan_entries dir vs) \<Longrightarrow>
   p_Queries p = (if dir = Up then m_Up (p_Migration p)
                  else if dir = Down then m_Down (p_Migration p) else [])"
  by (induction vs) auto

lemma plan_pending_Returned:
  "plan_pending migrations current dir max_n = Returned plan \<Longrightarrow>
   \<exists>pending. ToApply migrations current dir = Returned pending \<and>
      plan = plan_entries dir (if 0 < max_n then take (nat max_n) pending else pending)"
  by (auto simp add: plan_pending_def Let_def split: outcome.splits if_splits)

lemma DbMap_SelectOne_result:
  "DbMap_SelectOne drv dbMap \<lparr>r_Id = [], r_AppliedAt = 0\<rparr> w = ((err, record), w') \<Longrightarrow>
   w' = w\<lparr>log := log w @ [EvSelectOne]\<rparr> \<and>
   ((if err = Some ErrNoRows then None else err) = None \<longrightarrow> r_Id record = watermark (ledger w))"
  by (auto simp add: DbMap_SelectOne_def driver_call_def watermark_def
      split: option.splits if_splits)

text \<open>Planning reads; it writes nothing but the trace.\<close>

lemma PlanMigration_world:
  assumes "PlanMigration drv dialect m dir max_n w = (r, w')"
  shows "schema w' = schema w \<and> ledger w' = ledger w \<and> open_tx w' = open_tx w \<and>
         (\<exists>evs. log w' = log w @ evs \<and>
                set evs \<subseteq> {EvCreateTables, EvFindMigrations, EvSelectOne})"
proof (cases "getMigrationDbMap dialect")
  case (Inl e)
  then have "w' = w" using assms by (simp add: PlanMigration_def)
  then show ?thesis by simp
next
  case (Inr dbMap)
  obtain c w1 where c: "DbMap_CreateTablesIfNotExists drv dbMap w = (c, w1)"
    by (cases "DbMap_CreateTablesIfNotExists drv dbMap w")
  then have w1: "w1 = w\<lparr>log := log w @ [EvCreateTables]\<rparr>"
    by (auto simp add: DbMap_CreateTablesIfNotExists_def driver_call_def)
  show ?thesis
  proof (cases c)
    case (Some e)
    then have "w' = w1" using assms Inr c by (simp add: PlanMigration_def)
    then show ?thesis using w1 by simp
  next
    case None
    let ?w2 = "w1\<lparr>log := log w1 @ [EvFindMigrations]\<rparr>"
    show ?thesis
    proof (cases m)
      case (Inl e)
      then have "w' = ?w2" using assms Inr c None
        by (simp add: PlanMigration_def FindMigrations_def)
      then show ?thesis using w1 by simp
    next
      case migs: (Inr migrations)
      obtain err rcd w3 where
        sel: "DbMap_SelectOne drv dbMap \<lparr>r_Id = [], r_AppliedAt = 0\<rparr> ?w2 = ((err, rcd), w3)"
        by (cases "DbMap_SelectOne drv dbMap \<lparr>r_Id = [], r_AppliedAt = 0\<rparr> ?w2") auto
      from DbMap_SelectOne_result [OF sel]
      have w3: "w3 = ?w2\<lparr>log := log ?w2 @ [EvSelectOne]\<rparr>" by simp
      have "w' = w3" using assms Inr c None migs sel
        by (auto simp add: PlanMigration_def FindMigrations_def
            split: option.splits outcome.splits if_splits)
      then show ?thesis using w1 w3 by simp
    qed
  qed
qed

text \<open>A plan, when planning returns one.\<close>

lemma PlanMigration_Inr:
  assumes "PlanMigration drv dialect m dir max_n w = (Returned (Inr (plan, dbMap)), w')"
  shows "\<exists>migrations.
           m = Inr migrations \<and>
           getMigrationDbMap dialect = Inr dbMap \<and>
           plan_pending (sort_key m_Id migrations) (watermark (ledger w)) dir max_n
             = Returned plan"
proof -
  obtain dbMap' where db: "getMigrationDbMap dialect = Inr dbMap'"
    using assms by (cases "getMigrationDbMap dialect") (auto simp add: PlanMigration_def)
  obtain c w1 where c: "DbMap_CreateTablesIfNotExists drv dbMap' w = (c, w1)"
    by (cases "DbMap_CreateTablesIfNotExists drv dbMap' w")
  then have w1: "w1 = w\<lparr>log := log w @ [EvCreateTables]\<rparr>"
    by (auto simp add: DbMap_CreateTablesIfNotExists_def driver_call_def)
  have cn: "c = None"
    using assms db c by (cases c) (auto simp add: PlanMigration_def)
  obtain migrations where m: "m = Inr migrations"
    using assms db c cn by (cases m) (auto simp add: PlanMigration_def FindMigrations_def)
  let ?w2 = "w1\<lparr>log := log w1 @ [EvFindMigrations]\<rparr>"
  obtain err rcd w3 where
    sel: "DbMap_SelectOne drv dbMap' \<lparr>r_Id = [], r_AppliedAt = 0\<rparr> ?w2 = ((err, rcd), w3)"
    by (cases "DbMap_SelectOne drv dbMap' \<lparr>r_Id = [], r_AppliedAt = 0\<rparr> ?w2") auto
  have ok: "(if err = Some ErrNoRows then None else err) = None"
    using assms db c cn m sel
    by (auto simp add: PlanMigration_def FindMigrations_def split: option.splits if_splits)
  then have rid: "r_Id rcd = watermark (ledger w)"
    using DbMap_SelectOne_result [OF sel] w1 by simp
  have "plan_pending (sort_key m_Id migrations) (r_Id rcd) dir max_n = Returned plan
        \<and> dbMap' = dbMap"
    using assms db c cn m sel ok
    by (auto simp add: PlanMigration_def FindMigrations_def split: outcome.splits)
  with m db rid show ?thesis by auto
qed


section \<open>Properties of PlanMigration and ExecMax\<close>

lemma dom_MigrationDialects:
  "dom MigrationDialects = {''sqlite3'', ''postgres'', ''mysql'', ''mssql'', ''oci8''}"
  by (auto simp add: MigrationDialects_def split: if_splits)

text \<open>
  Claim C9. For every dialect that is not one of the five supported, \<open>PlanMigration\<close>
  returns the unknown-dialect error and \<open>ExecMax\<close> and \<open>Exec\<close> return the count 0 with
  it, in a world that is the one they started in: the trace has no new call, so no table was
  created, the source was not read and no transaction was begun.
\<close>

theorem C9_unknown_dialect:
  "dialect \<notin> {''sqlite3'', ''postgres'', ''mysql'', ''mssql'', ''oci8''} \<Longrightarrow>
   PlanMigration drv dialect m dir max_n w = (Returned (Inl (UnknownDialect dialect)), w) \<and>
   ExecMax drv dialect m dir max_n w = (Returned (0, Some (UnknownDialect dialect)), w) \<and>
   Exec drv dialect m dir w = (Returned (0, Some (UnknownDialect dialect)), w)"
proof -
  assume "dialect \<notin> {''sqlite3'', ''postgres'', ''mysql'', ''mssql'', ''oci8''}"
  then have "dialect \<notin> dom MigrationDialects"
    unfolding dom_MigrationDialects .
  then have "MigrationDialects dialect = None" by blast
  then have "getMigrationDbMap dialect = Inl (UnknownDialect dialect)"
    by (simp add: getMigrationDbMap_def)
  then have "PlanMigration drv dialect m dir max_n w
             = (Returned (Inl (UnknownDialect dialect)), w)" for max_n
    by (simp add: PlanMigration_def)
  then show ?thesis by (simp add: ExecMax_def Exec_def)
qed

theorem C9_unknown_dialect_witness:
  "ExecMax script_driver ''sqlite''
     (MemoryMigrationSource [migration_001, migration_002]) Up 0 empty_world
   = (Returned (0, Some (UnknownDialect ''sqlite'')), empty_world) \<and>
   log empty_world = []"
  using C9_unknown_dialect [of "''sqlite''" script_driver
      "MemoryMigrationSource [migration_001, migration_002]" Up 0 empty_world]
  by (simp add: empty_world_def)

text \<open>
  Claim C5. When \<open>PlanMigration\<close> returns a plan, the plan wraps, in their order, the first
  \<open>max\<close> migrations of the pending list that \<open>ToApply\<close> computed from the sorted
  definitions and the watermark of the ledger if \<open>max > 0\<close> (so at most \<open>max\<close> of them),
  and the whole pending list if \<open>max = 0\<close>. For direction \<open>Up\<close> the pending list is
  ascending in id, and every planned id is at most every pending id left out.
\<close>

theorem C5_cap:
  assumes "PlanMigration drv dialect m dir max_n w = (Returned (Inr (plan, dbMap)), w')"
  shows "\<exists>migrations pending.
           m = Inr migrations \<and>
           ToApply (sort_key m_Id migrations) (watermark (ledger w)) dir = Returned pending \<and>
           map p_Migration plan = (if 0 < max_n then take (nat max_n) pending else pending) \<and>
           (0 < max_n \<longrightarrow> int (length plan) \<le> max_n) \<and>
           (max_n = 0 \<longrightarrow> map p_Migration plan = pending) \<and>
           (dir = Up \<longrightarrow>
              pending = filter (\<lambda>x. watermark (ledger w) < m_Id x) (sort_key m_Id migrations) \<and>
              sorted (map m_Id pending) \<and>
              (\<forall>a\<in>set plan. \<forall>b\<in>set (drop (length plan) pending).
                  m_Id (p_Migration a) \<le> m_Id b))"
proof -
  from PlanMigration_Inr [OF assms] obtain migrations where
    m: "m = Inr migrations" and
    pp: "plan_pending (sort_key m_Id migrations) (watermark (ledger w)) dir max_n = Returned plan"
    by blast
  from plan_pending_Returned [OF pp] obtain pending where
    ta: "ToApply (sort_key m_Id migrations) (watermark (ledger w)) dir = Returned pending" and
    plan: "plan = plan_entries dir (if 0 < max_n then take (nat max_n) pending else pending)"
    by blast
  have mp: "map p_Migration plan = (if 0 < max_n then take (nat max_n) pending else pending)"
    using plan by simp
  have len: "0 < max_n \<longrightarrow> int (length plan) \<le> max_n"
    using plan by (auto simp add: min_def)
  have up: "pending = filter (\<lambda>x. watermark (ledger w) < m_Id x) (sort_key m_Id migrations) \<and>
            sorted (map m_Id pending) \<and>
            (\<forall>a\<in>set plan. \<forall>b\<in>set (drop (length plan) pending).
                m_Id (p_Migration a) \<le> m_Id b)" if "dir = Up"
  proof -
    have s: "sorted (map m_Id (sort_key m_Id migrations))" by simp
    have pend: "pending = filter (\<lambda>x. watermark (ledger w) < m_Id x) (sort_key m_Id migrations)"
      using ta that s by (simp add: ToApply_Up_dropWhile sorted_dropWhile_filter)
    have sp: "sorted (map m_Id pending)"
      unfolding pend using s by (rule sorted_filter_ids)
    have split: "pending = map p_Migration plan @ drop (length plan) pending"
      using mp by (auto simp add: plan min_def)
    have "sorted (map m_Id (map p_Migration plan) @ map m_Id (drop (length plan) pending))"
      using sp split by (metis map_append)
    then have "\<forall>a\<in>set plan. \<forall>b\<in>set (drop (length plan) pending).
                m_Id (p_Migration a) \<le> m_Id b"
      by (auto simp add: sorted_append)
    with pend sp show ?thesis by blast
  qed
  show ?thesis using m ta mp len up by auto
qed

theorem C5_cap_witness:
  "fst (PlanMigration script_driver ''sqlite3''
          (MemoryMigrationSource [migration_003, migration_001, migration_002]) Up 2 empty_world)
   = Returned (Inr (plan_entries Up [migration_001, migration_002],
        \<lparr>dm_Dialect = SqliteDialect, dm_Table = ''gorp_migrations'', dm_Keys = [''Id'']\<rparr>)) \<and>
   ToApply (sort_key m_Id [migration_003, migration_001, migration_002])
      (watermark (ledger empty_world)) Up
   = Returned [migration_001, migration_002, migration_003]"
proof -
  let ?src = "MemoryMigrationSource [migration_003, migration_001, migration_002]"
  let ?plan = "plan_entries Up [migration_001, migration_002]"
  let ?dbMap = "\<lparr>dm_Dialect = SqliteDialect, dm_Table = ''gorp_migrations'', dm_Keys = [''Id'']\<rparr>"
  have h: "PlanMigration script_driver ''sqlite3'' ?src Up 2 empty_world
           = (Returned (Inr (?plan, ?dbMap)),
              snd (PlanMigration script_driver ''sqlite3'' ?src Up 2 empty_world))"
    by code_simp
  from C5_cap [OF h] obtain migrations pending where
    m: "?src = Inr migrations" and
    ta: "ToApply (sort_key m_Id migrations) (watermark (ledger empty_world)) Up
           = Returned pending" and
    pend: "pending = filter (\<lambda>x. watermark (ledger empty_world) < m_Id x)
                       (sort_key m_Id migrations)"
    by (auto simp add: Up_def)
  from m have migs: "migrations = [migration_003, migration_001, migration_002]"
    by (simp add: MemoryMigrationSource_def)
  have "pending = [migration_001, migration_002, migration_003]"
    unfolding pend migs
    by (simp add: watermark_def empty_world_def migration_001_def migration_002_def
        migration_003_def)
  moreover have "fst (PlanMigration script_driver ''sqlite3'' ?src Up 2 empty_world)
                 = Returned (Inr (?plan, ?dbMap))"
    using h by (metis fst_conv)
  ultimately show ?thesis using ta migs by simp
qed

text \<open>
  Claim C4. Let the plan be \<open>done @ failing # rest\<close>, let the migrations of \<open>done\<close> be
  applied and committed, and let a statement \<open>stmt\<close> of \<open>failing\<close> fail with \<open>err\<close> after
  the statements \<open>pre\<close> before it succeeded. Then \<open>ExecMax\<close> returns the count
  \<open>length done\<close> with \<open>err\<close>; the trace ends with the rollback of the transaction of the
  failing migration and has no call after it (nothing of \<open>rest\<close> is processed); no
  transaction is left open by it; schema and ledger are those committed by \<open>done\<close>, whose
  commits are the only ones of the run, and for direction \<open>Up\<close> the ledger holds the records
  of \<open>done\<close> after those it had.
\<close>

theorem C4_statement_failure:
  assumes plan: "PlanMigration drv dialect m dir max_n w
                   = (Returned (Inr (done @ failing # rest, dbMap)), w0)"
    and committed: "apply_migrations drv dbMap dir done 0 w0
                      = (Returned (int (length done), None), w1)"
    and begun: "DbMap_Begin drv dbMap w1 = (Inr tx, w2)"
    and queries: "p_Queries failing = pre @ stmt # post"
    and pre_ok: "exec_queries drv tx pre w2 = (Inr tx1, w3)"
    and stmt_fails: "Tx_Exec drv tx1 stmt w3 = (Inl err, w4)"
  shows "\<exists>w'. ExecMax drv dialect m dir max_n w
                 = (Returned (int (length done), Some err), w') \<and>
              log w' = log w1 @ EvBegin # map EvExec (pre @ [stmt]) @ [EvRollback] \<and>
              open_tx w' = open_tx w1 \<and>
              schema w' = schema w1 \<and>
              ledger w' = ledger w1 \<and>
              length (filter (\<lambda>e. e = EvCommit) (log w'))
                = length (filter (\<lambda>e. e = EvCommit) (log w)) + length done \<and>
              (dir = Up \<longrightarrow>
                 (\<exists>new. ledger w' = ledger w @ new \<and> map r_Id new = plan_ids done))"
proof -
  from run_migration_stmt_fails [OF begun queries pre_ok stmt_fails, of dir]
  obtain w' where
    run: "run_migration drv dbMap dir failing w1 = (Returned (Some err), w')" and
    w': "log w' = log w1 @ EvBegin # map EvExec (pre @ [stmt]) @ [EvRollback]"
        "open_tx w' = open_tx w1" "schema w' = schema w1" "ledger w' = ledger w1"
    by blast
  have "apply_migrations drv dbMap dir (done @ failing # rest) 0 w0
        = apply_migrations drv dbMap dir (failing # rest) (int (length done)) w1"
    using committed by (rule apply_migrations_append)
  also have "\<dots> = (Returned (int (length done), Some err), w')"
    using run by simp
  finally have ex: "ExecMax drv dialect m dir max_n w
                    = (Returned (int (length done), Some err), w')"
    using plan by (simp add: ExecMax_def)
  note P = PlanMigration_world [OF plan]
  note A = apply_migrations_ok [OF committed]
  from P obtain evs where evs: "log w0 = log w @ evs"
    "set evs \<subseteq> {EvCreateTables, EvFindMigrations, EvSelectOne}" by blast
  have "filter (\<lambda>e. e = EvCommit) evs = []"
    using evs(2) by (auto simp add: filter_empty_conv)
  then have c0: "length (filter (\<lambda>e. e = EvCommit) (log w0))
                 = length (filter (\<lambda>e. e = EvCommit) (log w))"
    using evs(1) by simp
  have commits: "length (filter (\<lambda>e. e = EvCommit) (log w'))
                = length (filter (\<lambda>e. e = EvCommit) (log w)) + length done"
    using A c0 w'(1) by (simp add: filter_map comp_def)
  have up: "dir = Up \<longrightarrow> (\<exists>new. ledger w' = ledger w @ new \<and> map r_Id new = plan_ids done)"
    using A P w'(4) by simp
  show ?thesis using ex w' commits up by blast
qed


theorem C4_statement_failure_witness:
  "ExecMax script_driver ''sqlite3''
     (MemoryMigrationSource [migration_002, migration_003, migration_001]) Up 0 empty_world
   = (Returned (2, Some (DriverError ''syntax error'')),
      \<lparr>schema = [''CREATE TABLE t(x int)'', ''ALTER TABLE t ADD y int''],
       ledger = [\<lparr>r_Id = ''001'', r_AppliedAt = 5\<rparr>, \<lparr>r_Id = ''002'', r_AppliedAt = 9\<rparr>],
       open_tx = 0,
       log = [EvCreateTables, EvFindMigrations, EvSelectOne,
              EvBegin, EvExec ''CREATE TABLE t(x int)'', EvInsert ''001'', EvCommit,
              EvBegin, EvExec ''ALTER TABLE t ADD y int'', EvInsert ''002'', EvCommit,
              EvBegin, EvExec ''CREATE TABLE u(z int)'', EvExec ''FAIL'', EvRollback]\<rparr>)"
proof -
  let ?drv = script_driver
  let ?src = "MemoryMigrationSource [migration_002, migration_003, migration_001]"
  let ?dbMap = "\<lparr>dm_Dialect = SqliteDialect, dm_Table = ''gorp_migrations'', dm_Keys = [''Id'']\<rparr>"
  let ?done = "plan_entries Up [migration_001, migration_002]"
  let ?failing = "\<lparr>p_Migration = migration_003, p_Queries = m_Up migration_003\<rparr>"
  let ?w0 = "snd (PlanMigration ?drv ''sqlite3'' ?src Up 0 empty_world)"
  let ?w1 = "snd (apply_migrations ?drv ?dbMap Up ?done 0 ?w0)"
  let ?tx = "\<lparr>t_schema = schema ?w1, t_ledger = ledger ?w1\<rparr>"
  let ?w2 = "snd (DbMap_Begin ?drv ?dbMap ?w1)"
  let ?tx1 = "\<lparr>t_schema = schema ?w1 @ [''CREATE TABLE u(z int)''], t_ledger = ledger ?w1\<rparr>"
  let ?w3 = "snd (exec_queries ?drv ?tx [''CREATE TABLE u(z int)''] ?w2)"
  let ?w4 = "snd (Tx_Exec ?drv ?tx1 ''FAIL'' ?w3)"
  have plan: "PlanMigration ?drv ''sqlite3'' ?src Up 0 empty_world
                = (Returned (Inr (?done @ ?failing # [], ?dbMap)), ?w0)"
    by code_simp
  have committed: "apply_migrations ?drv ?dbMap Up ?done 0 ?w0
                     = (Returned (int (length ?done), None), ?w1)"
    by code_simp
  have begun: "DbMap_Begin ?drv ?dbMap ?w1 = (Inr ?tx, ?w2)"
    by code_simp
  have queries: "p_Queries ?failing
                   = [''CREATE TABLE u(z int)''] @ ''FAIL'' # [''CREATE TABLE v(z int)'']"
    by (simp add: migration_003_def)
  have pre_ok: "exec_queries ?drv ?tx [''CREATE TABLE u(z int)''] ?w2 = (Inr ?tx1, ?w3)"
    by code_simp
  have stmt_fails: "Tx_Exec ?drv ?tx1 ''FAIL'' ?w3 = (Inl (DriverError ''syntax error''), ?w4)"
    by code_simp
  from C4_statement_failure [OF plan committed begun queries pre_ok stmt_fails]
  obtain w' where
    "ExecMax ?drv ''sqlite3'' ?src Up 0 empty_world
       = (Returned (int (length ?done), Some (DriverError ''syntax error'')), w')"
    by blast
  moreover have "snd (ExecMax ?drv ''sqlite3'' ?src Up 0 empty_world)
      = \<lparr>schema = [''CREATE TABLE t(x int)'', ''ALTER TABLE t ADD y int''],
       ledger = [\<lparr>r_Id = ''001'', r_AppliedAt = 5\<rparr>, \<lparr>r_Id = ''002'', r_AppliedAt = 9\<rparr>],
       open_tx = 0,
       log = [EvCreateTables, EvFindMigrations, EvSelectOne,
              EvBegin, EvExec ''CREATE TABLE t(x int)'', EvInsert ''001'', EvCommit,
              EvBegin, EvExec ''ALTER TABLE t ADD y int'', EvInsert ''002'', EvCommit,
              EvBegin, EvExec ''CREATE TABLE u(z int)'', EvExec ''FAIL'', EvRollback]\<rparr>"
    by code_simp
  ultimately show ?thesis by simp
qed

text \<open>
  Claim C1 says that a failure of the ledger write (the insert for \<open>Up\<close>, the delete for
  \<open>Down\<close>) rolls the transaction back. The source returns at once on these two errors and
  never calls \<^verbatim>\<open>trans.Rollback()\<close>, which the branch of a failing statement does. On a
  database that denies writes to \<^verbatim>\<open>gorp_migrations\<close>, \<open>ExecMax\<close> returns the count 0 and
  the error, the trace ends with the failed insert (the failed delete) and has no rollback,
  and the transaction is left open.
\<close>

theorem C1_ledger_write_failure_no_rollback:
  "ExecMax readonly_ledger_driver ''sqlite3''
     (MemoryMigrationSource [migration_001, migration_002]) Up 0 empty_world
   = (Returned (0, Some (DriverError ''permission denied'')),
      \<lparr>schema = [], ledger = [], open_tx = 1,
       log = [EvCreateTables, EvFindMigrations, EvSelectOne,
              EvBegin, EvExec ''CREATE TABLE t(x int)'', EvInsert ''001'']\<rparr>) \<and>
   ExecMax readonly_ledger_driver ''sqlite3''
     (MemoryMigrationSource [migration_001, migration_002]) Down 0 world_001
   = (Returned (0, Some (DriverError ''permission denied'')),
      \<lparr>schema = [''CREATE TABLE t(x int)''],
       ledger = [\<lparr>r_Id = ''001'', r_AppliedAt = 7\<rparr>], open_tx = 1,
       log = [EvCreateTables, EvFindMigrations, EvSelectOne,
              EvBegin, EvExec ''DROP TABLE t'', EvDelete ''001'']\<rparr>)"
  by code_simp


subsection \<open>The watermark\<close>

lemma newest_None: "newest rs = None \<longleftrightarrow> rs = []"
  by (induction rs) (auto split: option.splits)

lemma newest_Some:
  "newest rs = Some b \<Longrightarrow> b \<in> set rs \<and> (\<forall>r\<in>set rs. r_Id r \<le> r_Id b)"
proof (induction rs arbitrary: b)
  case Nil
  then show ?case by simp
next
  case (Cons r rs)
  show ?case
  proof (cases "newest rs")
    case None
    then have "rs = []" by (simp add: newest_None)
    with Cons.prems None show ?thesis by simp
  next
    case (Some c)
    from Cons.IH [OF Some] have c: "c \<in> set rs" "\<forall>x\<in>set rs. r_Id x \<le> r_Id c" by simp_all
    show ?thesis
    proof (cases "r_Id c < r_Id r")
      case True
      then have "b = r" using Cons.prems Some by simp
      then show ?thesis using c True by (auto intro: order_trans less_imp_le)
    next
      case False
      then have "b = c" using Cons.prems Some by simp
      then show ?thesis using c False by auto
    qed
  qed
qed

lemma watermark_ge: "r \<in> set rs \<Longrightarrow> r_Id r \<le> watermark rs"
proof -
  assume r: "r \<in> set rs"
  then have "newest rs \<noteq> None" by (auto simp add: newest_None)
  then obtain b where b: "newest rs = Some b" by blast
  from newest_Some [OF b] r show ?thesis by (simp add: watermark_def b)
qed

lemma watermark_append_ge: "watermark rs \<le> watermark (rs @ new)"
proof (cases "newest rs")
  case None
  then show ?thesis by (simp add: watermark_def)
next
  case (Some b)
  from newest_Some [OF Some] have "b \<in> set (rs @ new)" by simp
  from watermark_ge [OF this] show ?thesis by (simp add: watermark_def Some)
qed

subsection \<open>Runs of ExecMax that succeed\<close>

lemma Up_neq_Down [simp]: "Up \<noteq> Down" "Down \<noteq> Up"
  by (simp_all add: Up_def Down_def)

lemma plan_pending_eq:
  "ToApply migrations current dir = Returned pending \<Longrightarrow>
   plan_pending migrations current dir max_n
     = Returned (plan_entries dir (if 0 < max_n then take (nat max_n) pending else pending))"
  by (auto simp add: plan_pending_def Let_def)

lemma ExecMax_ok:
  assumes "ExecMax drv dialect m dir max_n w = (Returned (n, None), w')"
  shows "\<exists>plan dbMap w0.
           PlanMigration drv dialect m dir max_n w = (Returned (Inr (plan, dbMap)), w0) \<and>
           apply_migrations drv dbMap dir plan 0 w0 = (Returned (n, None), w')"
proof -
  obtain r w0 where p: "PlanMigration drv dialect m dir max_n w = (r, w0)"
    by (cases "PlanMigration drv dialect m dir max_n w")
  show ?thesis
  proof (cases r)
    case (Panicked x)
    with assms p show ?thesis by (simp add: ExecMax_def)
  next
    case (Returned x)
    show ?thesis
    proof (cases x)
      case (Inl e)
      with assms p Returned show ?thesis by (simp add: ExecMax_def)
    next
      case (Inr pd)
      obtain plan dbMap where pd: "pd = (plan, dbMap)" by (cases pd)
      with assms p Returned Inr show ?thesis by (simp add: ExecMax_def)
    qed
  qed
qed

text \<open>What a run with direction Up and no cap that succeeds has done to the ledger.\<close>

lemma ExecMax_Up_ok:
  assumes "ExecMax drv dialect m Up 0 w = (Returned (n, None), w1)"
  shows "\<exists>migrations new dbMap.
           m = Inr migrations \<and> getMigrationDbMap dialect = Inr dbMap \<and>
           ledger w1 = ledger w @ new \<and>
           map r_Id new = map m_Id (filter (\<lambda>x. watermark (ledger w) < m_Id x)
                                      (sort_key m_Id migrations))"
proof -
  from ExecMax_ok [OF assms] obtain plan dbMap w0 where
    p: "PlanMigration drv dialect m Up 0 w = (Returned (Inr (plan, dbMap)), w0)" and
    a: "apply_migrations drv dbMap Up plan 0 w0 = (Returned (n, None), w1)"
    by blast
  from PlanMigration_Inr [OF p] obtain migrations where
    m: "m = Inr migrations" and db: "getMigrationDbMap dialect = Inr dbMap" and
    pp: "plan_pending (sort_key m_Id migrations) (watermark (ledger w)) Up 0 = Returned plan"
    by blast
  have s: "sorted (map m_Id (sort_key m_Id migrations))" by simp
  have "plan = plan_entries Up (filter (\<lambda>x. watermark (ledger w) < m_Id x)
                                  (sort_key m_Id migrations))"
    using plan_pending_Returned [OF pp] s
    by (auto simp add: ToApply_Up_dropWhile sorted_dropWhile_filter)
  then have ids: "plan_ids plan = map m_Id (filter (\<lambda>x. watermark (ledger w) < m_Id x)
                                  (sort_key m_Id migrations))"
    by simp
  from apply_migrations_ok [OF a] obtain new where
    "ledger w1 = ledger w0 @ new" "map r_Id new = plan_ids plan" by auto
  then show ?thesis using m db ids PlanMigration_world [OF p] by auto
qed



subsection \<open>Forward, then reverse\<close>




subsection \<open>Forward twice\<close>

lemma PlanMigration_Up_no_faults:
  assumes db: "getMigrationDbMap dialect = Inr dbMap"
    and nf: "\<forall>calls ev. fault drv calls ev = None"
  shows "\<exists>plan w'. PlanMigration drv dialect (Inr migrations) Up max_n w
                     = (Returned (Inr (plan, dbMap)), w')"
proof -
  show ?thesis
    using db nf
    by (auto simp add: PlanMigration_def DbMap_CreateTablesIfNotExists_def driver_call_def
        FindMigrations_def DbMap_SelectOne_def plan_pending_def Let_def ToApply_Up_dropWhile
        split: option.splits)
qed

text \<open>
  Claim C8. After \<open>ExecMax\<close> with direction \<open>Up\<close> and no cap has returned without an
  error, the same call on the world it left returns the count 0: any plan that the planner
  returns is empty, no transaction is begun (the trace grows by calls of the planner only),
  schema and ledger are untouched, and the run returns no error when the driver reports no
  fault.
\<close>

theorem C8_second_Up_applies_nothing:
  assumes up: "ExecMax drv dialect m Up 0 w = (Returned (n, None), w1)"
  shows "\<exists>e w2.
           ExecMax drv dialect m Up 0 w1 = (Returned (0, e), w2) \<and>
           schema w2 = schema w1 \<and> ledger w2 = ledger w1 \<and> open_tx w2 = open_tx w1 \<and>
           (\<exists>evs. log w2 = log w1 @ evs \<and>
                  set evs \<subseteq> {EvCreateTables, EvFindMigrations, EvSelectOne}) \<and>
           (\<forall>plan dbMap w'. PlanMigration drv dialect m Up 0 w1
                               = (Returned (Inr (plan, dbMap)), w') \<longrightarrow> plan = []) \<and>
           ((\<forall>calls ev. fault drv calls ev = None) \<longrightarrow> e = None)"
proof -
  from ExecMax_Up_ok [OF up] obtain migrations new dbMap where
    m: "m = Inr migrations" and db: "getMigrationDbMap dialect = Inr dbMap" and
    w1: "ledger w1 = ledger w @ new" and
    new: "map r_Id new = map m_Id (filter (\<lambda>x. watermark (ledger w) < m_Id x)
                                      (sort_key m_Id migrations))"
    by blast
  have covered: "m_Id x \<le> watermark (ledger w1)" if x: "x \<in> set migrations" for x
  proof (cases "watermark (ledger w) < m_Id x")
    case True
    then have "m_Id x \<in> set (map r_Id new)"
      unfolding new using x by auto
    then obtain r where "r \<in> set new" "r_Id r = m_Id x" by auto
    then show ?thesis using watermark_ge [of r "ledger w1"] w1 by auto
  next
    case False
    then have "m_Id x \<le> watermark (ledger w)" by simp
    also have "\<dots> \<le> watermark (ledger w1)"
      unfolding w1 by (rule watermark_append_ge)
    finally show ?thesis .
  qed
  have s: "sorted (map m_Id (sort_key m_Id migrations))" by simp
  have no_plan: "plan = []"
    if p: "PlanMigration drv dialect m Up 0 w1 = (Returned (Inr (plan, dbMap')), w')"
    for plan dbMap' w'
  proof -
    from PlanMigration_Inr [OF p] m have
      pp: "plan_pending (sort_key m_Id migrations) (watermark (ledger w1)) Up 0 = Returned plan"
      by auto
    have "filter (\<lambda>x. watermark (ledger w1) < m_Id x) (sort_key m_Id migrations) = []"
      using covered by (fastforce simp add: filter_empty_conv not_less)
    then show ?thesis
      using plan_pending_Returned [OF pp] s
      by (auto simp add: ToApply_Up_dropWhile sorted_dropWhile_filter)
  qed
  obtain r w2 where p2: "PlanMigration drv dialect m Up 0 w1 = (r, w2)"
    by (cases "PlanMigration drv dialect m Up 0 w1")
  note W = PlanMigration_world [OF p2]
  have nopanic: "r \<noteq> Panicked x" for x
    using p2 m
    by (auto simp add: PlanMigration_def FindMigrations_def plan_pending_def Let_def
        ToApply_Up_dropWhile split: sum.splits prod.splits option.splits if_splits)
  have "\<exists>e. ExecMax drv dialect m Up 0 w1 = (Returned (0, e), w2) \<and>
            ((\<forall>calls ev. fault drv calls ev = None) \<longrightarrow> e = None)"
  proof (cases r)
    case (Panicked x)
    then show ?thesis using nopanic [of x] by simp
  next
    case (Returned y)
    show ?thesis
    proof (cases y)
      case (Inl e)
      have "\<not> (\<forall>calls ev. fault drv calls ev = None)"
      proof
        assume "\<forall>calls ev. fault drv calls ev = None"
        from PlanMigration_Up_no_faults [OF db this, of migrations 0 w1]
        show False using p2 m Returned Inl by auto
      qed
      then show ?thesis using p2 Returned Inl by (simp add: ExecMax_def)
    next
      case (Inr pd)
      obtain plan dbMap' where pd: "pd = (plan, dbMap')" by (cases pd)
      have "PlanMigration drv dialect m Up 0 w1 = (Returned (Inr (plan, dbMap')), w2)"
        using p2 Returned Inr pd by simp
      then have "plan = []" by (rule no_plan)
      then show ?thesis using p2 Returned Inr pd by (simp add: ExecMax_def)
    qed
  qed
  then show ?thesis using W no_plan p2 by auto
qed


theorem C8_second_Up_applies_nothing_witness:
  "fst (ExecMax script_driver ''sqlite3'' (MemoryMigrationSource [migration_002, migration_001])
          Up 0 empty_world)
     = Returned (2, None) \<and>
   fst (ExecMax script_driver ''sqlite3'' (MemoryMigrationSource [migration_002, migration_001])
          Up 0
          (snd (ExecMax script_driver ''sqlite3''
                  (MemoryMigrationSource [migration_002, migration_001]) Up 0 empty_world)))
     = Returned (0, None)"
proof -
  let ?m = "MemoryMigrationSource [migration_002, migration_001]"
  let ?up = "ExecMax script_driver ''sqlite3'' ?m Up 0 empty_world"
  have fu: "fst ?up = Returned (2, None)" by code_simp
  have up: "?up = (Returned (2, None), snd ?up)"
    using fu by (metis prod.collapse)
  have nf: "\<forall>calls ev. fault script_driver calls ev = None"
    by (simp add: script_driver_def)
  from C8_second_Up_applies_nothing [OF up] nf obtain w2 where
    "ExecMax script_driver ''sqlite3'' ?m Up 0 (snd ?up) = (Returned (0, None), w2)"
    by blast
  then have "fst (ExecMax script_driver ''sqlite3'' ?m Up 0 (snd ?up)) = Returned (0, None)"
    by simp
  with fu show ?thesis by simp
qed


end
